theory Spec2Isabelle
  imports Complex_Main "HOL-Library.Word" "HOL-Library.Log_Nat"
begin

section \<open>JavaScript numbers\<close>

text \<open>
  Every JavaScript number is an IEEE-754 binary64 value. A finite double is a rational
  number, so a number is modelled as \<open>rat option\<close>, with \<open>None\<close> for \<open>NaN\<close>
  (the value \<open>undefined\<close> turns into \<open>NaN\<close> in arithmetic). Each arithmetic
  operation computes the exact rational result and rounds it to the nearest double, ties
  to even: 53 significant bits. The model is exact for results that are zero or of
  magnitude between \<open>2 ^ -1022\<close> and \<open>2 ^ 1024\<close>; all numbers of this program are
  bounded by a few thousands and are zero or at least \<open>2 ^ -40\<close>. Bytes, counts and
  array lengths (below \<open>2 ^ 32\<close>) are integers that a double holds exactly.
\<close>

type_synonym u8 = "8 word"
type_synonym number = "rat option"

definition rne :: "rat \<Rightarrow> int" where
  \<comment> \<open>round to the nearest integer, ties to the even one\<close>
  "rne x = (let f = \<lfloor>x\<rfloor> in
      if x - of_int f < 1 / 2 then f
      else if 1 / 2 < x - of_int f then f + 1
      else if even f then f else f + 1)"

definition ilog2 :: "rat \<Rightarrow> int" where
  \<comment> \<open>the binary exponent of a non-zero rational: \<open>2 powi e \<le> \<bar>x\<bar> < 2 powi (e + 1)\<close>\<close>
  "ilog2 x = (case quotient_of \<bar>x\<bar> of (p, q) \<Rightarrow>
      let d = bitlen p - bitlen q in if 2 powi d \<le> \<bar>x\<bar> then d else d - 1)"

definition fl :: "rat \<Rightarrow> rat" where
  \<comment> \<open>the double nearest to an exact result\<close>
  "fl x = (if x = 0 then 0
     else of_int (rne (x * 2 powi (52 - ilog2 x))) * 2 powi (ilog2 x - 52))"

definition js_mul :: "number \<Rightarrow> number \<Rightarrow> number" where
  "js_mul x y = (case (x, y) of (Some a, Some b) \<Rightarrow> Some (fl (a * b)) | _ \<Rightarrow> None)"

definition js_add :: "number \<Rightarrow> number \<Rightarrow> number" where
  "js_add x y = (case (x, y) of (Some a, Some b) \<Rightarrow> Some (fl (a + b)) | _ \<Rightarrow> None)"

definition js_sub :: "number \<Rightarrow> number \<Rightarrow> number" where
  "js_sub x y = (case (x, y) of (Some a, Some b) \<Rightarrow> Some (fl (a - b)) | _ \<Rightarrow> None)"

definition js_div :: "number \<Rightarrow> number \<Rightarrow> number" where
  \<comment> \<open>the divisors of this program are \<open>255.0\<close> and the length of a non-empty array;
      \<open>0 / 0\<close> is \<open>NaN\<close>, and a non-zero number over zero, an infinity, does not occur\<close>
  "js_div x y = (case (x, y) of
      (Some a, Some b) \<Rightarrow> if b = 0 then None else Some (fl (a / b))
    | _ \<Rightarrow> None)"

definition lit :: "rat \<Rightarrow> number" where
  \<comment> \<open>a decimal literal of the source text denotes the nearest double\<close>
  "lit x = Some (fl x)"

definition of_u8 :: "u8 option \<Rightarrow> number" where
  \<comment> \<open>a byte read from a typed array, as a number; \<open>undefined\<close> becomes \<open>NaN\<close>\<close>
  "of_u8 v = (case v of Some w \<Rightarrow> Some (of_nat (unat w)) | None \<Rightarrow> None)"

definition Math_round :: "number \<Rightarrow> int option" where
  \<comment> \<open>\<open>Math.round\<close>: the nearest integer, ties towards plus infinity; \<open>NaN\<close> stays \<open>NaN\<close>\<close>
  "Math_round x = (case x of Some a \<Rightarrow> Some \<lfloor>a + 1 / 2\<rfloor> | None \<Rightarrow> None)"

definition ToUint8Clamp :: "number \<Rightarrow> u8" where
  \<comment> \<open>the conversion on a store into a \<open>Uint8ClampedArray\<close>: \<open>NaN\<close> gives 0, the
      number is clamped to \<open>[0, 255]\<close> and rounded, ties to even\<close>
  "ToUint8Clamp x = (case x of None \<Rightarrow> 0 | Some a \<Rightarrow> word_of_int (rne (min (max a 0) 255)))"

section \<open>Typed arrays\<close>

definition ta_get :: "u8 list \<Rightarrow> int option \<Rightarrow> u8 option" where
  \<comment> \<open>\<open>t[k]\<close>: \<open>undefined\<close> unless \<open>k\<close> is an integer index within the array\<close>
  "ta_get t k = (case k of
      Some j \<Rightarrow> if 0 \<le> j \<and> nat j < length t then Some (t ! nat j) else None
    | None \<Rightarrow> None)"

definition ta_set :: "u8 list \<Rightarrow> nat \<Rightarrow> u8 option \<Rightarrow> u8 list" where
  \<comment> \<open>\<open>t[i] = v\<close> with \<open>v\<close> a byte or \<open>undefined\<close>: \<open>undefined\<close> is stored as 0,
      a store outside the array is ignored\<close>
  "ta_set t i v = (if i < length t then t[i := ToUint8Clamp (of_u8 v)] else t)"

section \<open>The lookup tables\<close>

definition COLOR_A :: "nat list" where
  "COLOR_A = [22, 80, 39]"

definition COLOR_B :: "nat list" where
  "COLOR_B = [249, 159, 210]"

definition lut_value :: "nat \<Rightarrow> nat \<Rightarrow> nat \<Rightarrow> number" where
  \<comment> \<open>the right-hand side \<open>(a * invLuminance) + (b * luminance)\<close> at index \<open>i\<close>\<close>
  "lut_value a b i =
     (let luminance = js_div (Some (of_nat i)) (lit 255);
          invLuminance = js_sub (lit 1) luminance
      in js_add (js_mul (Some (of_nat a)) invLuminance) (js_mul (Some (of_nat b)) luminance))"

definition rLUT :: "u8 list" where
  "rLUT = map (\<lambda>i. ToUint8Clamp (lut_value (COLOR_A ! 0) (COLOR_B ! 0) i)) [0..<256]"

definition gLUT :: "u8 list" where
  "gLUT = map (\<lambda>i. ToUint8Clamp (lut_value (COLOR_A ! 1) (COLOR_B ! 1) i)) [0..<256]"

definition bLUT :: "u8 list" where
  "bLUT = map (\<lambda>i. ToUint8Clamp (lut_value (COLOR_A ! 2) (COLOR_B ! 2) i)) [0..<256]"

section \<open>The per-pixel transform\<close>

record imageData =
  width :: nat
  height :: nat
  data :: "u8 list"

definition luminanceInt :: "u8 option \<Rightarrow> u8 option \<Rightarrow> u8 option \<Rightarrow> int option" where
  "luminanceInt r g b =
     Math_round (js_add (js_add (js_mul (of_u8 r) (lit (2126 / 10000)))
                                (js_mul (of_u8 g) (lit (7152 / 10000))))
                        (js_mul (of_u8 b) (lit (722 / 10000))))"

definition ta_read :: "u8 list \<Rightarrow> nat \<Rightarrow> u8 option" where
  \<comment> \<open>\<open>data[i]\<close> for a natural index\<close>
  "ta_read t i = (if i < length t then Some (t ! i) else None)"

definition filtering_body :: "nat \<Rightarrow> u8 list \<Rightarrow> u8 list" where
  "filtering_body i d =
     (let r = ta_read d i;
          g = ta_read d (i + 1);
          b = ta_read d (i + 2);
          l = luminanceInt r g b;
          d1 = ta_set d i (ta_get rLUT l);
          d2 = ta_set d1 (i + 1) (ta_get gLUT l)
      in ta_set d2 (i + 2) (ta_get bLUT l))"

function filtering_loop :: "nat \<Rightarrow> u8 list \<Rightarrow> u8 list" where
  "filtering_loop i d =
     (if i < length d then filtering_loop (i + 4) (filtering_body i d) else d)"
  by pat_completeness auto
termination
  by (relation "measure (\<lambda>(i, d). length d - i)")
     (auto simp: filtering_body_def ta_set_def Let_def)

definition filtering :: "imageData \<Rightarrow> imageData" where
  "filtering im = im\<lparr>data := filtering_loop 0 (data im)\<rparr>"

section \<open>The batch run\<close>

text \<open>
  JavaScript runs one task at a time. \<open>handleConvert\<close> runs up to its
  \<open>await Promise.all\<close>, each item's function up to its own \<open>await\<close>; then the load
  or error events of the images arrive one by one, in an order the code does not control.
  An event resumes the function of its item, which runs to its end without interruption;
  when that settles \<open>Promise.all\<close>, \<open>handleConvert\<close> resumes before the next event.
  A run is therefore \<open>handleConvert\<close> followed by a list of events, the schedule, and a
  property that holds for every schedule holds for every order of completion. The model
  follows one invocation (the button is disabled while \<open>isProcessing\<close>), and the
  canvas operations of an image that has loaded are taken not to throw.

  A \<open>File\<close> is opaque to the code; what the run needs from it is its name and what
  the browser does with it: whether the image loads (\<open>onload\<close>, with the pixels that
  \<open>getImageData\<close> then returns) or not (\<open>onerror\<close>), and whether
  \<open>canvas.getContext("2d")\<close> returns a context.
\<close>

record File =
  file_name :: string
  decoded :: "imageData option"
  has_ctx :: bool

text \<open>
  The data URL that \<open>canvas.toDataURL('image/png')\<close> returns is a lossless encoding of
  the canvas; it is represented by the image data that was put on the canvas.
\<close>

record processed =
  url :: imageData
  name :: string
  originalName :: string

datatype 'a promise = Pending | Fulfilled 'a | Rejected

text \<open>
  The state of the page (\<open>files\<close>, \<open>processedImages\<close>, \<open>isProcessing\<close>,
  \<open>processingProgress\<close>) and of one invocation of \<open>handleConvert\<close>: the list
  \<open>files\<close> that its closures captured (\<open>batch\<close>), \<open>processedCount\<close>,
  \<open>processingPromises\<close>, and whether the invocation is suspended at
  \<open>await Promise.all\<close>. Two fields observe effects: \<open>progress_log\<close> lists the
  arguments of the calls of \<open>setProcessingProgress\<close>, and \<open>console_errors\<close> counts
  the calls of \<open>console.error\<close>.
\<close>

record state =
  files :: "File list"
  processedImages :: "processed list"
  isProcessing :: bool
  processingProgress :: "int option"
  batch :: "File list"
  processedCount :: nat
  processingPromises :: "processed option promise list"
  awaiting :: bool
  progress_log :: "int option list"
  console_errors :: nat

definition setProcessingProgress :: "int option \<Rightarrow> state \<Rightarrow> state" where
  "setProcessingProgress v s = s\<lparr>processingProgress := v, progress_log := progress_log s @ [v]\<rparr>"

definition progress_of :: "nat \<Rightarrow> nat \<Rightarrow> int option" where
  \<comment> \<open>\<open>Math.round((processedCount / files.length) * 100)\<close>\<close>
  "progress_of c n = Math_round (js_mul (js_div (Some (of_nat c)) (Some (of_nat n))) (lit 100))"

definition handleConvert :: "state \<Rightarrow> state" where
  \<comment> \<open>the synchronous part of \<open>handleConvert\<close>, up to \<open>await Promise.all\<close>: every
      item's function has run up to its own \<open>await\<close> and its promise is pending\<close>
  "handleConvert s =
     (if length (files s) = 0 then s
      else (setProcessingProgress (Some 0) (s\<lparr>isProcessing := True\<rparr>))
             \<lparr>processedImages := [], batch := files s, processedCount := 0,
              processingPromises := map (\<lambda>f. Pending) (files s), awaiting := True\<rparr>)"

definition process_item :: "File \<Rightarrow> state \<Rightarrow> state \<times> processed option promise" where
  \<comment> \<open>an item's function from its \<open>await\<close> to its end: the new state and how its
      promise settles\<close>
  "process_item f s =
     (case decoded f of
        None \<Rightarrow> (s, Rejected)
      | Some im \<Rightarrow>
          if has_ctx f then
            let filterResult = filtering im;
                s1 = s\<lparr>processedCount := processedCount s + 1\<rparr>;
                s2 = setProcessingProgress
                       (progress_of (processedCount s1) (length (batch s1))) s1
            in (s2, Fulfilled (Some \<lparr>url = filterResult,
                                      name = ''pinku_'' @ file_name f,
                                      originalName = file_name f\<rparr>))
          else (s, Fulfilled None))"

fun fulfilled_values :: "'a promise list \<Rightarrow> 'a list option" where
  "fulfilled_values [] = Some []"
| "fulfilled_values (Fulfilled v # ps) = map_option ((#) v) (fulfilled_values ps)"
| "fulfilled_values (p # ps) = None"

definition Promise_all :: "'a promise list \<Rightarrow> 'a list promise" where
  \<comment> \<open>rejected as soon as one promise is, fulfilled with all the values, in the order of
      the promises, once all are fulfilled\<close>
  "Promise_all ps =
     (if Rejected \<in> set ps then Rejected
      else case fulfilled_values ps of Some vs \<Rightarrow> Fulfilled vs | None \<Rightarrow> Pending)"

definition resume :: "state \<Rightarrow> state" where
  \<comment> \<open>\<open>handleConvert\<close> from \<open>await Promise.all\<close> on, once that promise has settled:
      the \<open>try\<close>, its \<open>catch\<close> and its \<open>finally\<close>\<close>
  "resume s =
     (if awaiting s then
        case Promise_all (processingPromises s) of
          Pending \<Rightarrow> s
        | Fulfilled results \<Rightarrow>
            (let validResults = map the (filter (\<lambda>res. res \<noteq> None) results)
             in s\<lparr>processedImages := validResults, isProcessing := False, awaiting := False\<rparr>)
        | Rejected \<Rightarrow>
            s\<lparr>console_errors := console_errors s + 1, isProcessing := False, awaiting := False\<rparr>
      else s)"

definition image_event :: "nat \<Rightarrow> state \<Rightarrow> state" where
  \<comment> \<open>the load or error event of the image of item \<open>i\<close>: the item's function runs to
      its end, its promise settles, and the reactions to that run before the next event\<close>
  "image_event i s =
     (if i < length (processingPromises s) \<and> processingPromises s ! i = Pending then
        case process_item (batch s ! i) s of
          (s1, p) \<Rightarrow> resume (s1\<lparr>processingPromises := (processingPromises s1)[i := p]\<rparr>)
      else s)"

definition run :: "nat list \<Rightarrow> state \<Rightarrow> state" where
  \<comment> \<open>a batch run: \<open>handleConvert\<close>, then the images' events in the order \<open>sched\<close>\<close>
  "run sched s = fold image_event sched (handleConvert s)"

definition page_init :: state where
  \<comment> \<open>the initial values of the \<open>useState\<close> calls; no invocation yet\<close>
  "page_init = \<lparr>files = [], processedImages = [], isProcessing = False,
                processingProgress = Some 0, batch = [], processedCount = 0,
                processingPromises = [], awaiting = False, progress_log = [],
                console_errors = 0\<rparr>"

section \<open>Notions used in the statements\<close>

definition stored :: "u8 list \<Rightarrow> int option \<Rightarrow> u8" where
  \<comment> \<open>the byte that \<open>data[j] = t[l]\<close> stores\<close>
  "stored t l = ToUint8Clamp (of_u8 (ta_get t l))"

definition pixel_luminance :: "u8 list \<Rightarrow> nat \<Rightarrow> int option" where
  \<comment> \<open>\<open>luminanceInt\<close> of the pixel that starts at index \<open>i\<close>\<close>
  "pixel_luminance d i = luminanceInt (ta_read d i) (ta_read d (i + 1)) (ta_read d (i + 2))"

definition filtered_byte :: "u8 list \<Rightarrow> nat \<Rightarrow> u8" where
  \<comment> \<open>the byte at index \<open>j\<close> after the loop, in terms of the buffer before it\<close>
  "filtered_byte d j =
     (let l = pixel_luminance d (j - j mod 4)
      in if j mod 4 = 0 then stored rLUT l
         else if j mod 4 = 1 then stored gLUT l
         else if j mod 4 = 2 then stored bLUT l
         else d ! j)"

definition two_pixels :: imageData where
  \<comment> \<open>an image of two pixels, the second one transparent\<close>
  "two_pixels = \<lparr>width = 2, height = 1, data = [1, 2, 3, 77, 200, 100, 50, 0]\<rparr>"

definition luminance_exact :: "u8 \<Rightarrow> u8 \<Rightarrow> u8 \<Rightarrow> rat" where
  \<comment> \<open>\<open>0.2126 * r + 0.7152 * g + 0.0722 * b\<close> in exact arithmetic\<close>
  "luminance_exact r g b =
     (2126 * of_nat (unat r) + 7152 * of_nat (unat g) + 722 * of_nat (unat b)) / 10000"

definition grey_pair :: imageData where
  \<comment> \<open>two pixels of different colours and the same luminance, 19\<close>
  "grey_pair = \<lparr>width = 2, height = 1, data = [10, 20, 30, 255, 19, 19, 19, 255]\<rparr>"

definition lut_exact :: "nat \<Rightarrow> nat \<Rightarrow> nat \<Rightarrow> rat" where
  \<comment> \<open>\<open>A[c] * (1 - i / 255) + B[c] * (i / 255)\<close> in exact arithmetic\<close>
  "lut_exact a b i = of_nat a * (1 - of_nat i / 255) + of_nat b * (of_nat i / 255)"

definition round_half_up :: "rat \<Rightarrow> int" where
  \<comment> \<open>the other rounding rule the specification allows: ties towards plus infinity\<close>
  "round_half_up x = \<lfloor>x + 1 / 2\<rfloor>"

definition lut_spec :: "(rat \<Rightarrow> int) \<Rightarrow> nat \<Rightarrow> nat \<Rightarrow> nat \<Rightarrow> u8" where
  \<comment> \<open>the table entry as the specification words it,
      \<open>clamp_u8 (round (A[c] * (1 - i / 255) + B[c] * (i / 255)))\<close>, for a rounding rule\<close>
  "lut_spec rnd a b i = word_of_int (min 255 (max 0 (rnd (lut_exact a b i))))"

definition lut_weight :: "nat \<Rightarrow> nat \<Rightarrow> nat \<Rightarrow> int" where
  \<comment> \<open>255 times the exact entry, an integer\<close>
  "lut_weight a b i = int (a * (255 - i) + b * i)"

definition channel_lut :: "nat \<Rightarrow> u8 list" where
  \<comment> \<open>the table of channel 0 (red), 1 (green) or 2 (blue)\<close>
  "channel_lut c = [rLUT, gLUT, bLUT] ! c"

definition one_pixel :: "u8 \<Rightarrow> u8 \<Rightarrow> u8 \<Rightarrow> u8 \<Rightarrow> imageData" where
  \<comment> \<open>the image of a single pixel\<close>
  "one_pixel r g b a = \<lparr>width = 1, height = 1, data = [r, g, b, a]\<rparr>"

definition entry_of :: "File \<Rightarrow> imageData \<Rightarrow> processed" where
  \<comment> \<open>the entry that the item of file \<open>f\<close> returns when its image decodes to \<open>im\<close>\<close>
  "entry_of f im =
     \<lparr>url = filtering im, name = ''pinku_'' @ file_name f, originalName = file_name f\<rparr>"

definition outcome :: "File \<Rightarrow> processed option promise" where
  \<comment> \<open>how the promise of an item settles; it depends on the file only\<close>
  "outcome f = (case decoded f of
       None \<Rightarrow> Rejected
     | Some im \<Rightarrow> if has_ctx f then Fulfilled (Some (entry_of f im)) else Fulfilled None)"

definition item_value :: "File \<Rightarrow> processed option" where
  \<comment> \<open>the value of an item that does not reject: its entry or \<open>null\<close>\<close>
  "item_value f = (case decoded f of
       Some im \<Rightarrow> if has_ctx f then Some (entry_of f im) else None
     | None \<Rightarrow> None)"

definition entries :: "File list \<Rightarrow> processed list" where
  \<comment> \<open>the entries of the files that load and get a context, in the order of the files\<close>
  "entries fs = concat (map (\<lambda>f. case decoded f of
       Some im \<Rightarrow> if has_ctx f then [entry_of f im] else []
     | None \<Rightarrow> []) fs)"

definition succeeded :: "'a option promise \<Rightarrow> bool" where
  \<comment> \<open>fulfilled with an entry\<close>
  "succeeded p = (case p of Fulfilled (Some x) \<Rightarrow> True | _ \<Rightarrow> False)"

definition count_done :: "'a option promise list \<Rightarrow> nat" where
  "count_done ps = length (filter succeeded ps)"

definition valid_results :: "'a option list \<Rightarrow> 'a list" where
  \<comment> \<open>\<open>results.filter(res => res !== null)\<close>\<close>
  "valid_results results = map the (filter (\<lambda>res. res \<noteq> None) results)"

definition state_of :: "state \<Rightarrow> processed option promise list \<Rightarrow> state" where
  \<comment> \<open>the state of a run that started in \<open>s\<close>, as a function of its promises\<close>
  "state_of s ps =
     s\<lparr>isProcessing := (Promise_all ps = Pending),
       processingProgress :=
         (if count_done ps = 0 then Some 0 else progress_of (count_done ps) (length (files s))),
       processedImages :=
         (case Promise_all ps of Fulfilled rs \<Rightarrow> valid_results rs | _ \<Rightarrow> []),
       batch := files s,
       processedCount := count_done ps,
       processingPromises := ps,
       awaiting := (Promise_all ps = Pending),
       progress_log := progress_log s @ Some 0 #
          map (\<lambda>k. progress_of k (length (files s))) [1..<count_done ps + 1],
       console_errors := console_errors s + (if Promise_all ps = Rejected then 1 else 0)\<rparr>"

definition settle_one ::
  "File list \<Rightarrow> nat \<Rightarrow> processed option promise list \<Rightarrow> processed option promise list" where
  \<comment> \<open>what the event of item \<open>i\<close> does to the promises\<close>
  "settle_one fs i ps =
     (if i < length ps \<and> ps ! i = Pending then ps[i := outcome (fs ! i)] else ps)"

definition settled :: "File list \<Rightarrow> nat list \<Rightarrow> processed option promise list" where
  \<comment> \<open>the promises after the events \<open>sched\<close>\<close>
  "settled fs sched = fold (settle_one fs) sched (map (\<lambda>f. Pending) fs)"

definition complete :: "nat list \<Rightarrow> nat \<Rightarrow> bool" where
  \<comment> \<open>the event of every one of \<open>n\<close> items occurs in \<open>sched\<close>, in whatever order\<close>
  "complete sched n = list_all (\<lambda>i. i \<in> set sched) [0..<n]"

definition good_file :: File where
  "good_file =
     \<lparr>file_name = ''good.png'', decoded = Some (one_pixel 255 255 255 255), has_ctx = True\<rparr>"

definition bad_file :: File where
  \<comment> \<open>a file whose image fires the error event\<close>
  "bad_file = \<lparr>file_name = ''bad.png'', decoded = None, has_ctx = True\<rparr>"

definition no_ctx_file :: File where
  \<comment> \<open>a file whose image loads, on a canvas that gives no context\<close>
  "no_ctx_file =
     \<lparr>file_name = ''bad.png'', decoded = Some (one_pixel 1 2 3 4), has_ctx = False\<rparr>"

definition good2_file :: File where
  "good2_file =
     \<lparr>file_name = ''good2.png'', decoded = Some (one_pixel 0 0 0 255), has_ctx = True\<rparr>"

definition three_files :: state where
  "three_files = page_init\<lparr>files := [good_file, bad_file, good2_file]\<rparr>"

definition three_files_no_ctx :: state where
  "three_files_no_ctx = page_init\<lparr>files := [good_file, no_ctx_file, good2_file]\<rparr>"

definition two_files :: state where
  "two_files = page_init\<lparr>files := [good_file, good2_file]\<rparr>"

section \<open>The loop of the per-pixel transform\<close>

declare filtering_loop.simps [simp del]

lemma rne_of_int [simp]: "rne (of_int n) = n"
  by (simp add: rne_def)

lemma rne_of_nat [simp]: "rne (of_nat n) = int n"
  using rne_of_int [of "int n"] by simp

lemma ToUint8Clamp_of_u8 [simp]: "ToUint8Clamp (of_u8 (Some w)) = w"
proof -
  define n where "n = unat w"
  have "n < 2 ^ LENGTH(8)" unfolding n_def by (rule unsigned_less)
  then have "n \<le> 255" by simp
  then have "(of_nat n :: rat) \<le> 255" by (metis of_nat_le_iff of_nat_numeral)
  then have "min (max (of_nat n) 0) 255 = (of_nat n :: rat)"
    by (simp add: min_def max_def)
  then have "word_of_int (rne (min (max (of_nat n) 0) 255)) = (word_of_nat n :: u8)"
    by simp
  then show ?thesis by (simp add: ToUint8Clamp_def of_u8_def n_def)
qed

lemma length_ta_set [simp]: "length (ta_set t i v) = length t"
  by (simp add: ta_set_def)

lemma nth_ta_set:
  "j < length t \<Longrightarrow> ta_set t i v ! j = (if j = i then ToUint8Clamp (of_u8 v) else t ! j)"
  by (simp add: ta_set_def)

lemma length_filtering_body [simp]: "length (filtering_body i d) = length d"
  by (simp add: filtering_body_def Let_def)

lemma nth_filtering_body:
  assumes "j < length d"
  shows "filtering_body i d ! j =
     (if j = i then stored rLUT (pixel_luminance d i)
      else if j = i + 1 then stored gLUT (pixel_luminance d i)
      else if j = i + 2 then stored bLUT (pixel_luminance d i)
      else d ! j)"
  using assms by (simp add: filtering_body_def Let_def nth_ta_set stored_def pixel_luminance_def)

lemma length_filtering_loop [simp]: "length (filtering_loop i d) = length d"
proof (induction i d rule: filtering_loop.induct)
  case (1 i d)
  show ?case
  proof (cases "i < length d")
    case True
    then have "filtering_loop i d = filtering_loop (i + 4) (filtering_body i d)"
      by (subst filtering_loop.simps) simp
    with 1 [OF True] show ?thesis by simp
  next
    case False
    then show ?thesis by (subst filtering_loop.simps) simp
  qed
qed

lemma mod4_window:
  assumes "4 dvd (i::nat)" "i \<le> j" "j < i + 4"
  shows "j mod 4 = j - i"
proof -
  from assms(1) obtain k where k: "i = 4 * k" by (auto simp: dvd_def)
  define r where "r = j - i"
  have j: "j = 4 * k + r" and r: "r < 4" using assms(2,3) k by (simp_all add: r_def)
  have "(4 * k + r) mod 4 = r" using r by simp
  then show ?thesis using j k by simp
qed

lemma mod4_floor:
  assumes "4 dvd (i::nat)" "i + 4 \<le> j"
  shows "i + 4 \<le> j - j mod 4"
proof -
  from assms(1) obtain k where k: "i = 4 * k" by (auto simp: dvd_def)
  have "(k + 1) * 4 \<le> j" using assms(2) k by simp
  then have "k + 1 \<le> j div 4" by (simp add: less_eq_div_iff_mult_less_eq)
  then have "4 * (k + 1) \<le> 4 * (j div 4)" by simp
  moreover have "j - j mod 4 = 4 * (j div 4)" by (simp add: minus_mod_eq_mult_div)
  ultimately show ?thesis using k by simp
qed

lemma ta_read_filtering_body:
  "i + 4 \<le> k \<Longrightarrow> ta_read (filtering_body i d) k = ta_read d k"
  by (simp add: ta_read_def nth_filtering_body)

lemma filtered_byte_filtering_body:
  assumes "4 dvd i" "i + 4 \<le> j" "j < length d"
  shows "filtered_byte (filtering_body i d) j = filtered_byte d j"
proof -
  have "i + 4 \<le> j - j mod 4"
    using assms(1,2) by (rule mod4_floor)
  then have "pixel_luminance (filtering_body i d) (j - j mod 4) = pixel_luminance d (j - j mod 4)"
    by (simp add: pixel_luminance_def ta_read_filtering_body)
  then show ?thesis
    using assms(2,3) by (simp add: filtered_byte_def Let_def nth_filtering_body)
qed

lemma filtered_byte_cases:
  "j mod 4 = 0 \<Longrightarrow> filtered_byte d j = stored rLUT (pixel_luminance d (j - j mod 4))"
  "j mod 4 = 1 \<Longrightarrow> filtered_byte d j = stored gLUT (pixel_luminance d (j - j mod 4))"
  "j mod 4 = 2 \<Longrightarrow> filtered_byte d j = stored bLUT (pixel_luminance d (j - j mod 4))"
  "j mod 4 = 3 \<Longrightarrow> filtered_byte d j = d ! j"
  by (simp_all add: filtered_byte_def Let_def)

lemma nth_filtering_body_window:
  assumes "4 dvd i" "i \<le> j" "j < i + 4" "j < length d"
  shows "filtering_body i d ! j = filtered_byte d j"
proof -
  have m: "j mod 4 = j - i" using assms(1-3) by (rule mod4_window)
  then have b: "j - j mod 4 = i" using assms(2) by simp
  note body = nth_filtering_body [OF assms(4), of i]
  consider "j = i" "j mod 4 = 0" | "j = i + 1" "j mod 4 = 1"
    | "j = i + 2" "j mod 4 = 2" | "j = i + 3" "j mod 4 = 3"
    using m assms(2,3) by arith
  then show ?thesis
  proof cases
    case 1
    have "filtering_body i d ! j = stored rLUT (pixel_luminance d i)"
      using body 1(1) by simp
    then show ?thesis using filtered_byte_cases(1) [OF 1(2), of d] b by simp
  next
    case 2
    have "filtering_body i d ! j = stored gLUT (pixel_luminance d i)"
      using body 2(1) by simp
    then show ?thesis using filtered_byte_cases(2) [OF 2(2), of d] b by simp
  next
    case 3
    have "filtering_body i d ! j = stored bLUT (pixel_luminance d i)"
      using body 3(1) by simp
    then show ?thesis using filtered_byte_cases(3) [OF 3(2), of d] b by simp
  next
    case 4
    have "filtering_body i d ! j = d ! j"
      using body 4(1) by simp
    then show ?thesis using filtered_byte_cases(4) [OF 4(2), of d] by simp
  qed
qed

lemma nth_filtering_loop:
  "4 dvd i \<Longrightarrow> j < length d \<Longrightarrow>
   filtering_loop i d ! j = (if i \<le> j then filtered_byte d j else d ! j)"
proof (induction i d rule: filtering_loop.induct)
  case (1 i d)
  show ?case
  proof (cases "i < length d")
    case True
    have dvd: "4 dvd i + 4" using "1.prems"(1) by simp
    have eq: "filtering_loop i d = filtering_loop (i + 4) (filtering_body i d)"
      using True by (subst filtering_loop.simps) simp
    have IH: "filtering_loop (i + 4) (filtering_body i d) ! j =
        (if i + 4 \<le> j then filtered_byte (filtering_body i d) j else filtering_body i d ! j)"
      using "1.IH" [OF True dvd] "1.prems"(2) by simp
    show ?thesis
    proof (cases "i + 4 \<le> j")
      case True
      then show ?thesis
        using IH eq filtered_byte_filtering_body [OF "1.prems"(1) True "1.prems"(2)] by simp
    next
      case False
      show ?thesis
      proof (cases "i \<le> j")
        case True
        with False have "j < i + 4" by simp
        from nth_filtering_body_window [OF "1.prems"(1) True this "1.prems"(2)]
        show ?thesis using IH eq False True by simp
      next
        case False
        then show ?thesis
          using IH eq "1.prems"(2) by (simp add: nth_filtering_body)
      qed
    qed
  next
    case False
    then have "filtering_loop i d = d" by (subst filtering_loop.simps) simp
    then show ?thesis using False "1.prems"(2) by simp
  qed
qed

lemma length_data_filtering [simp]: "length (data (filtering im)) = length (data im)"
  by (simp add: filtering_def)

lemma data_filtering_nth:
  "j < length (data im) \<Longrightarrow> data (filtering im) ! j = filtered_byte (data im) j"
  by (simp add: filtering_def nth_filtering_loop)

lemma pixel_index:
  assumes "4 dvd length (d::'a list)" "p < length d div 4"
  shows "4 * p + 3 < length d"
proof -
  from assms(1) obtain k where k: "length d = 4 * k" by (auto simp: dvd_def)
  with assms(2) have "p < k" by simp
  then show ?thesis using k by simp
qed

lemma filtering_pixel:
  assumes "4 * p + 3 < length (data im)"
  shows "data (filtering im) ! (4 * p) = stored rLUT (pixel_luminance (data im) (4 * p))"
    and "data (filtering im) ! (4 * p + 1) = stored gLUT (pixel_luminance (data im) (4 * p))"
    and "data (filtering im) ! (4 * p + 2) = stored bLUT (pixel_luminance (data im) (4 * p))"
    and "data (filtering im) ! (4 * p + 3) = data im ! (4 * p + 3)"
proof -
  have m0: "(4 * p) mod 4 = 0" and m1: "(4 * p + 1) mod 4 = 1"
    and m2: "(4 * p + 2) mod 4 = 2" and m3: "(4 * p + 3) mod 4 = 3"
    using mod_mult_self4 [of 4 p 1] mod_mult_self4 [of 4 p 2] mod_mult_self4 [of 4 p 3]
    by (simp_all del: mod_mult_self4)
  have b: "4 * p - (4 * p) mod 4 = 4 * p" "4 * p + 1 - (4 * p + 1) mod 4 = 4 * p"
    "4 * p + 2 - (4 * p + 2) mod 4 = 4 * p"
    unfolding m0 m1 m2 by simp_all
  have r: "4 * p < length (data im)" "4 * p + 1 < length (data im)"
    "4 * p + 2 < length (data im)" using assms by simp_all
  show "data (filtering im) ! (4 * p) = stored rLUT (pixel_luminance (data im) (4 * p))"
    using data_filtering_nth [OF r(1)] filtered_byte_cases(1) [OF m0, of "data im"]
    by (simp only: b)
  show "data (filtering im) ! (4 * p + 1) = stored gLUT (pixel_luminance (data im) (4 * p))"
    using data_filtering_nth [OF r(2)] filtered_byte_cases(2) [OF m1, of "data im"]
    by (simp only: b)
  show "data (filtering im) ! (4 * p + 2) = stored bLUT (pixel_luminance (data im) (4 * p))"
    using data_filtering_nth [OF r(3)] filtered_byte_cases(3) [OF m2, of "data im"]
    by (simp only: b)
  show "data (filtering im) ! (4 * p + 3) = data im ! (4 * p + 3)"
    using data_filtering_nth [OF assms] filtered_byte_cases(4) [OF m3, of "data im"]
    by (simp only:)
qed

section \<open>Rounding to a double\<close>

lemma rne_close: "\<bar>of_int (rne x) - x\<bar> \<le> 1 / 2"
proof -
  have "of_int \<lfloor>x\<rfloor> \<le> x" "x < of_int \<lfloor>x\<rfloor> + 1" by linarith+
  then show ?thesis by (auto simp: rne_def Let_def)
qed

lemma ilog2_lower:
  assumes "x \<noteq> 0"
  shows "2 powi (ilog2 x) \<le> \<bar>x\<bar>"
proof -
  obtain p q where pq: "quotient_of \<bar>x\<bar> = (p, q)" by (cases "quotient_of \<bar>x\<bar>")
  have q: "0 < q" using pq by (rule quotient_of_denom_pos)
  have x: "\<bar>x\<bar> = of_int p / of_int q" using pq by (rule quotient_of_div)
  have "0 < \<bar>x\<bar>" using assms by simp
  then have p: "0 < p" using x q by (simp add: zero_less_divide_iff)
  define d where "d = bitlen p - bitlen q"
  show ?thesis
  proof (cases "2 powi d \<le> \<bar>x\<bar>")
    case True
    then show ?thesis by (simp add: ilog2_def pq d_def Let_def)
  next
    case False
    then have e: "ilog2 x = d - 1" by (simp add: ilog2_def pq d_def Let_def)
    have bp: "1 \<le> bitlen p" using p bitlen_eq_zero_iff [of p] bitlen_nonneg [of p] by arith
    have bq: "0 \<le> bitlen q" by (rule bitlen_nonneg)
    have "2 ^ nat (bitlen p - 1) \<le> p" using bitlen_bounds [OF p] by simp
    then have "(of_int (2 ^ nat (bitlen p - 1)) :: rat) \<le> of_int p" by (simp only: of_int_le_iff)
    then have lo: "(2::rat) powi (bitlen p - 1) \<le> of_int p"
      using bp by (simp add: power_int_def)
    have "q < 2 ^ nat (bitlen q)" using bitlen_bounds [OF q] by simp
    then have "(of_int q :: rat) < of_int (2 ^ nat (bitlen q))" by (simp only: of_int_less_iff)
    then have hi: "of_int q < (2::rat) powi (bitlen q)"
      using bq by (simp add: power_int_def)
    have dd: "d - 1 = (bitlen p - 1) - bitlen q" by (simp add: d_def)
    have "(2::rat) powi (d - 1) = 2 powi (bitlen p - 1) / 2 powi (bitlen q)"
      unfolding dd by (rule power_int_diff) simp
    also have "\<dots> \<le> of_int p / 2 powi (bitlen q)"
      using lo by (simp add: divide_right_mono)
    also have "\<dots> \<le> of_int p / of_int q"
      using hi p q by (simp add: frac_le)
    finally show ?thesis using e x by simp
  qed
qed

text \<open>
  With both bounds on the exponent, the scaled value that \<open>fl\<close> rounds has 53
  significant bits: \<open>fl\<close> rounds to the grid of the doubles of the binade of \<open>x\<close>.
\<close>

lemma ilog2_upper:
  assumes "x \<noteq> 0"
  shows "\<bar>x\<bar> < 2 powi (ilog2 x + 1)"
proof -
  obtain p q where pq: "quotient_of \<bar>x\<bar> = (p, q)" by (cases "quotient_of \<bar>x\<bar>")
  have q: "0 < q" using pq by (rule quotient_of_denom_pos)
  have x: "\<bar>x\<bar> = of_int p / of_int q" using pq by (rule quotient_of_div)
  have "0 < \<bar>x\<bar>" using assms by simp
  then have p: "0 < p" using x q by (simp add: zero_less_divide_iff)
  define d where "d = bitlen p - bitlen q"
  show ?thesis
  proof (cases "2 powi d \<le> \<bar>x\<bar>")
    case False
    then have "ilog2 x = d - 1" by (simp add: ilog2_def pq d_def Let_def)
    then show ?thesis using False by simp
  next
    case True
    then have e: "ilog2 x = d" by (simp add: ilog2_def pq d_def Let_def)
    have bq: "1 \<le> bitlen q" using q bitlen_eq_zero_iff [of q] bitlen_nonneg [of q] by arith
    have bp: "0 \<le> bitlen p" by (rule bitlen_nonneg)
    have "p < 2 ^ nat (bitlen p)" using bitlen_bounds [OF p] by simp
    then have "(of_int p :: rat) < of_int (2 ^ nat (bitlen p))" by (simp only: of_int_less_iff)
    then have hi: "of_int p < (2::rat) powi (bitlen p)"
      using bp by (simp add: power_int_def)
    have "2 ^ nat (bitlen q - 1) \<le> q" using bitlen_bounds [OF q] by simp
    then have "(of_int (2 ^ nat (bitlen q - 1)) :: rat) \<le> of_int q" by (simp only: of_int_le_iff)
    then have lo: "(2::rat) powi (bitlen q - 1) \<le> of_int q"
      using bq by (simp add: power_int_def)
    have dd: "d + 1 = bitlen p - (bitlen q - 1)" by (simp add: d_def)
    have "(of_int p :: rat) / of_int q < 2 powi (bitlen p) / of_int q"
      using hi q by (simp add: divide_strict_right_mono)
    also have "\<dots> \<le> 2 powi (bitlen p) / 2 powi (bitlen q - 1)"
      using lo by (intro divide_left_mono) (simp_all add: mult_pos_pos q)
    also have "\<dots> = (2::rat) powi (d + 1)"
      unfolding dd by (rule power_int_diff [symmetric]) simp
    finally show ?thesis using e x by simp
  qed
qed

lemma fl_mantissa:
  assumes "x \<noteq> 0"
  shows "2 ^ 52 \<le> \<bar>x * 2 powi (52 - ilog2 x)\<bar>" and "\<bar>x * 2 powi (52 - ilog2 x)\<bar> < 2 ^ 53"
proof -
  define e where "e = ilog2 x"
  have s: "(0::rat) < 2 powi (52 - e)" by simp
  have lo: "2 powi e \<le> \<bar>x\<bar>" unfolding e_def using assms by (rule ilog2_lower)
  have hi: "\<bar>x\<bar> < 2 powi (e + 1)" unfolding e_def using assms by (rule ilog2_upper)
  have a: "\<bar>x * 2 powi (52 - e)\<bar> = \<bar>x\<bar> * 2 powi (52 - e)" by (simp add: abs_mult)
  have "(2::rat) powi e * 2 powi (52 - e) = 2 powi (e + (52 - e))"
    by (rule power_int_add [symmetric]) simp
  then have l: "(2::rat) powi e * 2 powi (52 - e) = 2 ^ 52" by simp
  have "(2::rat) powi (e + 1) * 2 powi (52 - e) = 2 powi (e + 1 + (52 - e))"
    by (rule power_int_add [symmetric]) simp
  then have h: "(2::rat) powi (e + 1) * 2 powi (52 - e) = 2 ^ 53" by simp
  have "2 powi e * 2 powi (52 - e) \<le> \<bar>x\<bar> * 2 powi (52 - e)"
    using lo s by (simp only: mult_le_cancel_right_pos)
  then show "2 ^ 52 \<le> \<bar>x * 2 powi (52 - ilog2 x)\<bar>"
    unfolding l a e_def [symmetric] .
  have "\<bar>x\<bar> * 2 powi (52 - e) < 2 powi (e + 1) * 2 powi (52 - e)"
    using hi s by (simp only: mult_less_cancel_right_pos)
  then show "\<bar>x * 2 powi (52 - ilog2 x)\<bar> < 2 ^ 53"
    unfolding h a e_def [symmetric] .
qed

lemma fl_err: "\<bar>fl x - x\<bar> \<le> \<bar>x\<bar> / 2 ^ 53"
proof (cases "x = 0")
  case True
  then show ?thesis by (simp add: fl_def)
next
  case False
  define e where "e = ilog2 x"
  define s :: rat where "s = 2 powi (52 - e)"
  have s: "0 < s" by (simp add: s_def)
  have inv: "2 powi (e - 52) = 1 / s"
    by (simp add: s_def power_int_diff)
  have se: "1 / s = 2 powi e / 2 ^ 52"
    by (simp add: s_def power_int_diff)
  have "fl x - x = (of_int (rne (x * s)) - x * s) / s"
    using False s by (simp add: fl_def e_def [symmetric] s_def [symmetric] inv field_simps)
  then have "\<bar>fl x - x\<bar> = \<bar>of_int (rne (x * s)) - x * s\<bar> / s"
    using s by simp
  also have "\<dots> \<le> (1 / 2) / s"
    using rne_close [of "x * s"] s by (simp only: divide_right_mono less_imp_le)
  also have "\<dots> = 2 powi e / 2 ^ 53"
    using se by simp
  also have "\<dots> \<le> \<bar>x\<bar> / 2 ^ 53"
    using ilog2_lower [OF False] by (simp add: e_def divide_right_mono)
  finally show ?thesis .
qed

lemma fl_close:
  assumes "\<bar>x\<bar> \<le> 1024"
  shows "\<bar>fl x - x\<bar> \<le> 1 / 8796093022208"
proof -
  have "\<bar>x\<bar> / 2 ^ 53 \<le> 1024 / 2 ^ 53" using assms by (simp add: divide_right_mono)
  also have "\<dots> = (1::rat) / 8796093022208" by simp
  finally show ?thesis using fl_err [of x] by linarith
qed

section \<open>The luminance index\<close>

lemma fl_consts:
  "fl (2126 / 10000) = 1914930561557935 / 9007199254740992"
  "fl (7152 / 10000) = 6441948906990757 / 9007199254740992"
  "fl (722 / 10000) = 5202558289538397 / 72057594037927936"
  by code_simp+

lemma luminance_close:
  fixes r g b :: nat
  assumes "r \<le> 255" "g \<le> 255" "b \<le> 255"
  shows "\<bar>fl (fl (fl (of_nat r * fl (2126 / 10000)) + fl (of_nat g * fl (7152 / 10000)))
             + fl (of_nat b * fl (722 / 10000)))
          - (2126 * of_nat r + 7152 * of_nat g + 722 * of_nat b) / 10000\<bar> \<le> 1 / 10000"
proof -
  define R :: rat where "R = of_nat r"
  define G :: rat where "G = of_nat g"
  define B :: rat where "B = of_nat b"
  have R: "0 \<le> R" "R \<le> 255" and G: "0 \<le> G" "G \<le> 255" and B: "0 \<le> B" "B \<le> 255"
    using assms by (simp_all add: R_def G_def B_def)
  define x1 where "x1 = R * (1914930561557935 / 9007199254740992)"
  define x2 where "x2 = G * (6441948906990757 / 9007199254740992)"
  define x3 where "x3 = B * (5202558289538397 / 72057594037927936)"
  have x1: "0 \<le> x1" "x1 \<le> 55" using R by (simp_all add: x1_def)
  have x2: "0 \<le> x2" "x2 \<le> 183" using G by (simp_all add: x2_def)
  have x3: "0 \<le> x3" "x3 \<le> 19" using B by (simp_all add: x3_def)
  have t1: "\<bar>fl x1 - x1\<bar> \<le> 1 / 8796093022208" using x1 by (intro fl_close) linarith
  have t2: "\<bar>fl x2 - x2\<bar> \<le> 1 / 8796093022208" using x2 by (intro fl_close) linarith
  have t3: "\<bar>fl x3 - x3\<bar> \<le> 1 / 8796093022208" using x3 by (intro fl_close) linarith
  have "\<bar>fl x1 + fl x2\<bar> \<le> 1024" using t1 t2 x1 x2 by linarith
  then have s1: "\<bar>fl (fl x1 + fl x2) - (fl x1 + fl x2)\<bar> \<le> 1 / 8796093022208" by (rule fl_close)
  have "\<bar>fl (fl x1 + fl x2) + fl x3\<bar> \<le> 1024" using s1 t1 t2 t3 x1 x2 x3 by linarith
  then have s2: "\<bar>fl (fl (fl x1 + fl x2) + fl x3) - (fl (fl x1 + fl x2) + fl x3)\<bar> \<le> 1 / 8796093022208"
    by (rule fl_close)
  have a: "\<bar>fl (fl (fl x1 + fl x2) + fl x3) - (x1 + x2 + x3)\<bar> \<le> 5 / 8796093022208"
    using s1 s2 t1 t2 t3 by linarith
  have b1: "\<bar>x1 - 2126 * R / 10000\<bar> \<le> 1 / 100000"
    using R unfolding x1_def by linarith
  have b2: "\<bar>x2 - 7152 * G / 10000\<bar> \<le> 1 / 100000"
    using G unfolding x2_def by linarith
  have b3: "\<bar>x3 - 722 * B / 10000\<bar> \<le> 1 / 100000"
    using B unfolding x3_def by linarith
  have "\<bar>fl (fl (fl x1 + fl x2) + fl x3) - (2126 * R + 7152 * G + 722 * B) / 10000\<bar> \<le> 1 / 10000"
    using a b1 b2 b3 unfolding add_divide_distrib by linarith
  then show ?thesis
    by (simp only: fl_consts x1_def x2_def x3_def R_def G_def B_def)
qed

lemma unat_u8_le: "unat (w :: u8) \<le> 255"
proof -
  have "unat w < 2 ^ LENGTH(8)" by (rule unsigned_less)
  then show ?thesis by simp
qed

lemma round_half_up_near:
  fixes s :: rat and N :: int
  assumes "\<bar>s - of_int N / 5000\<bar> \<le> 1 / 10000"
  shows "\<bar>of_int \<lfloor>s + 1 / 2\<rfloor> - of_int N / 5000\<bar> \<le> (1 / 2 :: rat)"
proof -
  define L where "L = \<lfloor>s + 1 / 2\<rfloor>"
  have f: "of_int L \<le> s + 1 / 2" "s + 1 / 2 < of_int L + 1"
    unfolding L_def by linarith+
  have "10000 * (of_int L :: rat) \<le> 2 * of_int N + 5001"
    using f(1) assms by linarith
  then have "(of_int (10000 * L) :: rat) \<le> of_int (2 * N + 5001)" by simp
  then have u: "10000 * L \<le> 2 * N + 5001" by (simp only: of_int_le_iff)
  have "2 * (of_int N :: rat) - 5001 < 10000 * of_int L"
    using f(2) assms by linarith
  then have "(of_int (2 * N - 5001) :: rat) < of_int (10000 * L)" by simp
  then have l: "2 * N - 5001 < 10000 * L" by (simp only: of_int_less_iff)
  have "5000 * L \<le> N + 2500" "N - 2500 \<le> 5000 * L" using u l by arith+
  then have "(of_int (5000 * L) :: rat) \<le> of_int (N + 2500)"
    "(of_int (N - 2500) :: rat) \<le> of_int (5000 * L)" by (simp_all only: of_int_le_iff)
  then have "5000 * (of_int L :: rat) \<le> of_int N + 2500"
    "(of_int N :: rat) - 2500 \<le> 5000 * of_int L" by simp_all
  then show ?thesis unfolding L_def [symmetric] by linarith
qed

lemma luminanceInt_Some:
  "\<exists>L. luminanceInt (Some r) (Some g) (Some b) = Some L
       \<and> \<bar>of_int L - luminance_exact r g b\<bar> \<le> 1 / 2 \<and> 0 \<le> L \<and> L \<le> 255"
proof -
  define R G B where "R = unat r" and "G = unat g" and "B = unat b"
  have bounds: "R \<le> 255" "G \<le> 255" "B \<le> 255"
    unfolding R_def G_def B_def by (rule unat_u8_le)+
  define s where "s = fl (fl (fl (of_nat R * fl (2126 / 10000))
      + fl (of_nat G * fl (7152 / 10000))) + fl (of_nat B * fl (722 / 10000)))"
  define N where "N = 1063 * int R + 3576 * int G + 361 * int B"
  have E: "luminance_exact r g b = (2126 * of_nat R + 7152 * of_nat G + 722 * of_nat B) / 10000"
    by (simp only: luminance_exact_def R_def G_def B_def)
  have EN: "luminance_exact r g b = of_int N / 5000"
    unfolding E by (simp add: N_def add_divide_distrib)
  define K where "K = \<lfloor>s + 1 / 2\<rfloor>"
  have L: "luminanceInt (Some r) (Some g) (Some b) = Some K"
    by (simp only: luminanceInt_def Math_round_def js_add_def js_mul_def lit_def of_u8_def s_def
        R_def G_def B_def K_def option.case prod.case)
  have "\<bar>s - luminance_exact r g b\<bar> \<le> 1 / 10000"
    unfolding s_def E using bounds by (rule luminance_close)
  then have c: "\<bar>of_int K - of_int N / 5000\<bar> \<le> (1 / 2 :: rat)"
    unfolding EN K_def by (rule round_half_up_near)
  have "0 \<le> N" "N \<le> 1275000"
    using bounds by (simp_all add: N_def)
  then have "(of_int 0 :: rat) \<le> of_int N" "(of_int N :: rat) \<le> of_int 1275000"
    by (simp_all only: of_int_le_iff)
  then have "(0 :: rat) \<le> of_int N" "(of_int N :: rat) \<le> 1275000"
    by simp_all
  then have "(-1 :: rat) < of_int K" "(of_int K :: rat) < 256"
    using c by linarith+
  then have "(of_int (-1) :: rat) < of_int K" "(of_int K :: rat) < of_int 256"
    by simp_all
  then have "-1 < K" "K < 256"
    by (simp_all only: of_int_less_iff)
  moreover have "\<bar>of_int K - luminance_exact r g b\<bar> \<le> 1 / 2"
    using c by (simp only: EN)
  ultimately show ?thesis using L by simp
qed

lemma luminanceInt_nearest:
  assumes "\<bar>of_int K - luminance_exact r g b\<bar> < 1 / 2"
  shows "luminanceInt (Some r) (Some g) (Some b) = Some K"
proof -
  from luminanceInt_Some [of r g b] obtain L
    where L: "luminanceInt (Some r) (Some g) (Some b) = Some L"
      "\<bar>of_int L - luminance_exact r g b\<bar> \<le> 1 / 2" by blast
  have "\<bar>(of_int K :: rat) - of_int L\<bar> < 1" using assms L(2) by linarith
  then have "\<bar>(of_int (K - L) :: rat)\<bar> < of_int 1" by simp
  then have "\<bar>K - L\<bar> < 1" by (simp only: of_int_abs [symmetric] of_int_less_iff)
  then show ?thesis using L(1) by simp
qed

text \<open>
  The index is a nearest integer of the exact sum, yet not always the exact sum rounded
  half up: for the pixel (0, 14, 76) the exact sum is 15.5, the double sum falls just
  below it, and the index is 15.
\<close>

lemma luminance_tie:
  "luminanceInt (Some 0) (Some 14) (Some 76) = Some 15 \<and> luminance_exact 0 14 76 = 31 / 2"
  by code_simp

section \<open>The entries of the lookup tables\<close>

lemma fl_small_ints: "fl 1 = 1" "fl 255 = 255" "fl 100 = 100"
  by code_simp+

lemma abs_scale_le:
  fixes a x c :: rat
  assumes "0 \<le> a" "a \<le> 255" "\<bar>x\<bar> \<le> c"
  shows "\<bar>a * x\<bar> \<le> 255 * c"
proof -
  have "0 \<le> c" using assms(3) by linarith
  have "\<bar>a * x\<bar> = a * \<bar>x\<bar>" using assms(1) by (simp add: abs_mult)
  also have "\<dots> \<le> 255 * c" using assms \<open>0 \<le> c\<close> by (intro mult_mono) simp_all
  finally show ?thesis .
qed

lemma abs_scale_diff_le:
  fixes a x y c :: rat
  assumes "0 \<le> a" "a \<le> 255" "\<bar>x - y\<bar> \<le> c"
  shows "\<bar>a * x - a * y\<bar> \<le> 255 * c"
  using abs_scale_le [OF assms] by (simp add: right_diff_distrib)

lemma lut_value_close:
  assumes "a \<le> 255" "b \<le> 255" "i \<le> 255"
  shows "\<exists>v. lut_value a b i = Some v \<and> \<bar>v - lut_exact a b i\<bar> \<le> 1 / 1000000"
proof -
  define A :: rat where "A = of_nat a"
  define B :: rat where "B = of_nat b"
  define I :: rat where "I = of_nat i"
  have A: "0 \<le> A" "A \<le> 255" and B: "0 \<le> B" "B \<le> 255" and I: "0 \<le> I" "I \<le> 255"
    using assms by (simp_all add: A_def B_def I_def)
  define lum where "lum = fl (I / 255)"
  define inv where "inv = fl (1 - lum)"
  define p1 where "p1 = fl (A * inv)"
  define p2 where "p2 = fl (B * lum)"
  define v where "v = fl (p1 + p2)"
  have val: "lut_value a b i = Some v"
    by (simp add: lut_value_def Let_def js_div_def js_sub_def js_add_def js_mul_def lit_def
        fl_small_ints v_def p1_def p2_def inv_def lum_def A_def B_def I_def)
  have l: "\<bar>lum - I / 255\<bar> \<le> 1 / 8796093022208"
    unfolding lum_def using I by (intro fl_close) linarith
  then have "\<bar>1 - lum\<bar> \<le> 1024" using I by linarith
  then have "\<bar>inv - (1 - lum)\<bar> \<le> 1 / 8796093022208"
    unfolding inv_def by (rule fl_close)
  with l have n: "\<bar>inv - (1 - I / 255)\<bar> \<le> 2 / 8796093022208" by linarith
  then have nb: "\<bar>inv\<bar> \<le> 2" using I by linarith
  have lb: "\<bar>lum\<bar> \<le> 2" using l I by linarith
  have y1: "\<bar>A * inv - A * (1 - I / 255)\<bar> \<le> 255 * (2 / 8796093022208)"
    using A n by (rule abs_scale_diff_le)
  have y2: "\<bar>B * lum - B * (I / 255)\<bar> \<le> 255 * (1 / 8796093022208)"
    using B l by (rule abs_scale_diff_le)
  have b1: "\<bar>A * inv\<bar> \<le> 255 * 2" using A nb by (rule abs_scale_le)
  have b2: "\<bar>B * lum\<bar> \<le> 255 * 2" using B lb by (rule abs_scale_le)
  have e1: "\<bar>p1 - A * inv\<bar> \<le> 1 / 8796093022208"
    unfolding p1_def using b1 by (intro fl_close) linarith
  have e2: "\<bar>p2 - B * lum\<bar> \<le> 1 / 8796093022208"
    unfolding p2_def using b2 by (intro fl_close) linarith
  have "\<bar>p1 + p2\<bar> \<le> 1024" using e1 e2 b1 b2 by linarith
  then have e3: "\<bar>v - (p1 + p2)\<bar> \<le> 1 / 8796093022208"
    unfolding v_def by (rule fl_close)
  have "\<bar>v - (A * (1 - I / 255) + B * (I / 255))\<bar> \<le> 1 / 1000000"
    using e1 e2 e3 y1 y2 by linarith
  then show ?thesis using val by (simp add: lut_exact_def A_def B_def I_def)
qed


lemma lut_exact_weight:
  assumes "i \<le> 255"
  shows "lut_exact a b i = of_int (lut_weight a b i) / 255"
proof -
  have "(of_nat (255 - i) :: rat) = 255 - of_nat i" using assms by (simp add: of_nat_diff)
  then have "(of_int (lut_weight a b i) :: rat) = of_nat a * (255 - of_nat i) + of_nat b * of_nat i"
    by (simp add: lut_weight_def)
  then show ?thesis by (simp add: lut_exact_def field_simps)
qed

lemma lut_weight_bounds:
  assumes "a \<le> 255" "b \<le> 255" "i \<le> 255"
  shows "0 \<le> lut_weight a b i" "lut_weight a b i \<le> 65025"
proof -
  show "0 \<le> lut_weight a b i" by (simp add: lut_weight_def)
  have "a * (255 - i) \<le> 255 * (255 - i)" using assms(1) by (rule mult_le_mono1)
  moreover have "b * i \<le> 255 * i" using assms(2) by (rule mult_le_mono1)
  ultimately have "a * (255 - i) + b * i \<le> 255 * (255 - i) + 255 * i" by (rule add_mono)
  also have "\<dots> = 65025" using assms(3) by simp
  finally have "int (a * (255 - i) + b * i) \<le> int 65025" by (rule of_nat_mono)
  then show "lut_weight a b i \<le> 65025" by (simp only: lut_weight_def of_nat_numeral)
qed

lemma div_510_unique:
  fixes K n :: int
  assumes "510 * K \<le> n" "n < 510 * K + 510"
  shows "n div 510 = K"
proof -
  define r where "r = n - 510 * K"
  have "n = K * 510 + r" "0 \<le> r" "r < 510" using assms by (simp_all add: r_def)
  then show ?thesis by simp
qed

lemma nearest_of_255:
  fixes w :: rat and M K :: int
  assumes "\<bar>w - of_int M / 255\<bar> \<le> 1 / 1000" and "\<bar>of_int K - w\<bar> \<le> 1 / 2"
  shows "K = (2 * M + 255) div 510"
proof -
  have "510 * (of_int K :: rat) < 2 * of_int M + 256" "2 * (of_int M :: rat) - 256 < 510 * of_int K"
    using assms by linarith+
  then have "(of_int (510 * K) :: rat) < of_int (2 * M + 256)"
    "(of_int (2 * M - 256) :: rat) < of_int (510 * K)" by simp_all
  then have "510 * K < 2 * M + 256" "2 * M - 256 < 510 * K"
    by (simp_all only: of_int_less_iff)
  then have "510 * K \<le> 2 * M + 255" "2 * M + 255 < 510 * K + 510" by arith+
  then show ?thesis by (rule div_510_unique [symmetric])
qed

lemma rne_of_255: "rne (of_int M / 255) = (2 * M + 255) div 510"
  by (rule nearest_of_255 [of "of_int M / 255"]) (simp, rule rne_close)

lemma round_half_up_of_255: "round_half_up (of_int M / 255) = (2 * M + 255) div 510"
proof -
  have "of_int M / 255 + 1 / 2 = (of_int (2 * M + 255) :: rat) / of_int 510"
    by (simp add: field_simps)
  then show ?thesis
    unfolding round_half_up_def by (simp only: floor_divide_of_int_eq)
qed

lemma lut_round_bounds:
  fixes M :: int
  assumes "0 \<le> M" "M \<le> 65025"
  shows "0 \<le> (2 * M + 255) div 510" "(2 * M + 255) div 510 \<le> 255"
  using assms by simp_all

lemma lut_entry:
  assumes "a \<le> 255" "b \<le> 255" "i \<le> 255"
  shows "ToUint8Clamp (lut_value a b i) = word_of_int ((2 * lut_weight a b i + 255) div 510)"
proof -
  define M where "M = lut_weight a b i"
  have M: "0 \<le> M" "M \<le> 65025" unfolding M_def using assms by (rule lut_weight_bounds)+
  then have "(of_int 0 :: rat) \<le> of_int M" "(of_int M :: rat) \<le> of_int 65025"
    by (simp_all only: of_int_le_iff)
  then have E: "(0::rat) \<le> of_int M / 255" "(of_int M :: rat) / 255 \<le> 255" by simp_all
  from lut_value_close [OF assms] obtain v
    where v: "lut_value a b i = Some v" "\<bar>v - of_int M / 255\<bar> \<le> 1 / 1000000"
    unfolding lut_exact_weight [OF assms(3)] M_def by blast
  define w where "w = min (max v 0) 255"
  have "\<bar>w - of_int M / 255\<bar> \<le> 1 / 1000"
    using v(2) E unfolding w_def by linarith
  then have "rne w = (2 * M + 255) div 510"
    using rne_close [of w] by (rule nearest_of_255)
  then show ?thesis by (simp add: ToUint8Clamp_def v(1) w_def M_def)
qed

lemma lut_entry_spec:
  assumes "a \<le> 255" "b \<le> 255" "i \<le> 255"
  shows "ToUint8Clamp (lut_value a b i) = lut_spec rne a b i"
    and "ToUint8Clamp (lut_value a b i) = lut_spec round_half_up a b i"
proof -
  note bd = lut_round_bounds [OF lut_weight_bounds [OF assms]]
  show "ToUint8Clamp (lut_value a b i) = lut_spec rne a b i"
    using bd by (simp add: lut_entry [OF assms] lut_spec_def lut_exact_weight [OF assms(3)] rne_of_255)
  show "ToUint8Clamp (lut_value a b i) = lut_spec round_half_up a b i"
    using bd by (simp add: lut_entry [OF assms] lut_spec_def lut_exact_weight [OF assms(3)]
        round_half_up_of_255)
qed

lemma lut_entry_ends:
  assumes "a \<le> 255" "b \<le> 255"
  shows "ToUint8Clamp (lut_value a b 0) = of_nat a"
    and "ToUint8Clamp (lut_value a b 255) = of_nat b"
proof -
  have "(2 * (int a * 255) + 255) div 510 = int a"
    by (rule div_510_unique) simp_all
  then show "ToUint8Clamp (lut_value a b 0) = of_nat a"
    using lut_entry [OF assms, of 0] by (simp add: lut_weight_def)
  have "(2 * (int b * 255) + 255) div 510 = int b"
    by (rule div_510_unique) simp_all
  then show "ToUint8Clamp (lut_value a b 255) = of_nat b"
    using lut_entry [OF assms, of 255] by (simp add: lut_weight_def)
qed

lemma lut_weight_mono:
  assumes "a \<le> b" "i \<le> j" "j \<le> 255"
  shows "lut_weight a b i \<le> lut_weight a b j"
proof -
  define k where "k = j - i"
  have j: "j = i + k" and i: "255 - i = (255 - j) + k" using assms(2,3) by (simp_all add: k_def)
  have "a * k \<le> b * k" using assms(1) by (rule mult_le_mono1)
  then have "a * (255 - i) + b * i \<le> a * (255 - j) + b * j"
    unfolding i j by (simp add: algebra_simps)
  then show ?thesis unfolding lut_weight_def by (rule of_nat_mono)
qed

lemma lut_weight_antimono:
  assumes "b \<le> a" "i \<le> j" "j \<le> 255"
  shows "lut_weight a b j \<le> lut_weight a b i"
proof -
  define k where "k = j - i"
  have j: "j = i + k" and i: "255 - i = (255 - j) + k" using assms(2,3) by (simp_all add: k_def)
  have "b * k \<le> a * k" using assms(1) by (rule mult_le_mono1)
  then have "a * (255 - j) + b * j \<le> a * (255 - i) + b * i"
    unfolding i j by (simp add: algebra_simps)
  then show ?thesis unfolding lut_weight_def by (rule of_nat_mono)
qed

lemma word_of_int_u8_mono:
  assumes "0 \<le> x" "x \<le> y" "y \<le> 255"
  shows "(word_of_int x :: u8) \<le> word_of_int y"
proof -
  have "uint (word_of_int x :: u8) = x" "uint (word_of_int y :: u8) = y"
    using assms by (simp_all add: uint_word_of_int take_bit_int_eq_self)
  then show ?thesis using assms(2) by (simp add: word_le_def)
qed

lemma lut_entry_mono:
  assumes "a \<le> 255" "b \<le> 255" "i \<le> j" "j \<le> 255"
  shows "a \<le> b \<Longrightarrow> ToUint8Clamp (lut_value a b i) \<le> ToUint8Clamp (lut_value a b j)"
    and "b \<le> a \<Longrightarrow> ToUint8Clamp (lut_value a b j) \<le> ToUint8Clamp (lut_value a b i)"
proof -
  have i: "i \<le> 255" using assms(3,4) by simp
  note bi = lut_round_bounds [OF lut_weight_bounds [OF assms(1,2) i]]
  note bj = lut_round_bounds [OF lut_weight_bounds [OF assms(1,2,4)]]
  show "ToUint8Clamp (lut_value a b i) \<le> ToUint8Clamp (lut_value a b j)" if "a \<le> b"
  proof -
    have "(2 * lut_weight a b i + 255) div 510 \<le> (2 * lut_weight a b j + 255) div 510"
      using lut_weight_mono [OF that assms(3,4)] by (intro zdiv_mono1) simp_all
    then show ?thesis
      unfolding lut_entry [OF assms(1,2) i] lut_entry [OF assms(1,2,4)]
      using bi(1) bj(2) by (intro word_of_int_u8_mono)
  qed
  show "ToUint8Clamp (lut_value a b j) \<le> ToUint8Clamp (lut_value a b i)" if "b \<le> a"
  proof -
    have "(2 * lut_weight a b j + 255) div 510 \<le> (2 * lut_weight a b i + 255) div 510"
      using lut_weight_antimono [OF that assms(3,4)] by (intro zdiv_mono1) simp_all
    then show ?thesis
      unfolding lut_entry [OF assms(1,2) i] lut_entry [OF assms(1,2,4)]
      using bj(1) bi(2) by (intro word_of_int_u8_mono)
  qed
qed

lemma channel_lut_nth:
  assumes "c < 3" "i < 256"
  shows "channel_lut c ! i = ToUint8Clamp (lut_value (COLOR_A ! c) (COLOR_B ! c) i)"
proof -
  have "c = 0 \<or> c = 1 \<or> c = 2" using assms(1) by arith
  then show ?thesis
    using assms(2) by (elim disjE) (simp_all add: channel_lut_def rLUT_def gLUT_def bLUT_def)
qed

lemma anchors_le:
  assumes "c < 3"
  shows "COLOR_A ! c \<le> 255" "COLOR_B ! c \<le> 255" "COLOR_A ! c \<le> COLOR_B ! c"
proof -
  have "c = 0 \<or> c = 1 \<or> c = 2" using assms(1) by arith
  then show "COLOR_A ! c \<le> 255" "COLOR_B ! c \<le> 255" "COLOR_A ! c \<le> COLOR_B ! c"
    by (auto simp: COLOR_A_def COLOR_B_def)
qed

section \<open>The lookup tables are the interpolation between the anchors\<close>

text \<open>
  C4. For every channel \<open>c\<close> (0, 1, 2 for red, green, blue) and every index \<open>i\<close> below
  256, the entry \<open>i\<close> of the table that the code constructs is
  \<open>clamp_u8 (round (A[c] * (1 - i / 255) + B[c] * (i / 255)))\<close>, the sum taken in exact
  arithmetic, for both rounding rules (ties to even and ties upwards: the exact sum is
  never a tie). Entry 0 is the channel of anchor A and entry 255 that of anchor B. Every
  channel of A is at most that of B and every table is non-decreasing (\<open>i \<le> j\<close> gives
  entry \<open>i \<le>\<close> entry \<open>j\<close>). For arbitrary anchor channels \<open>a\<close>, \<open>b\<close> up to 255
  the same construction is non-decreasing when \<open>a \<le> b\<close> and non-increasing when
  \<open>b \<le> a\<close>.
\<close>

theorem lut_construction:
  assumes "c < 3" and "i \<le> j" and "j < 256" and "a \<le> 255" and "b \<le> 255"
  shows "channel_lut c ! i = lut_spec rne (COLOR_A ! c) (COLOR_B ! c) i
       \<and> channel_lut c ! i = lut_spec round_half_up (COLOR_A ! c) (COLOR_B ! c) i
       \<and> channel_lut c ! 0 = of_nat (COLOR_A ! c)
       \<and> channel_lut c ! 255 = of_nat (COLOR_B ! c)
       \<and> COLOR_A ! c \<le> COLOR_B ! c
       \<and> channel_lut c ! i \<le> channel_lut c ! j
       \<and> (a \<le> b \<longrightarrow> ToUint8Clamp (lut_value a b i) \<le> ToUint8Clamp (lut_value a b j))
       \<and> (b \<le> a \<longrightarrow> ToUint8Clamp (lut_value a b j) \<le> ToUint8Clamp (lut_value a b i))"
proof -
  have j: "j \<le> 255" and i: "i \<le> 255" "i < 256" using assms(2,3) by simp_all
  note an = anchors_le [OF assms(1)]
  have "channel_lut c ! i = lut_spec rne (COLOR_A ! c) (COLOR_B ! c) i"
    unfolding channel_lut_nth [OF assms(1) i(2)] using an(1,2) i(1) by (rule lut_entry_spec(1))
  moreover have "channel_lut c ! i = lut_spec round_half_up (COLOR_A ! c) (COLOR_B ! c) i"
    unfolding channel_lut_nth [OF assms(1) i(2)] using an(1,2) i(1) by (rule lut_entry_spec(2))
  moreover have "channel_lut c ! 0 = of_nat (COLOR_A ! c)"
    using channel_lut_nth [OF assms(1), of 0] lut_entry_ends(1) [OF an(1,2)] by simp
  moreover have "channel_lut c ! 255 = of_nat (COLOR_B ! c)"
    using channel_lut_nth [OF assms(1), of 255] lut_entry_ends(2) [OF an(1,2)] by simp
  moreover have "channel_lut c ! i \<le> channel_lut c ! j"
    unfolding channel_lut_nth [OF assms(1) i(2)] channel_lut_nth [OF assms(1,3)]
    using an(1,2) assms(2) j an(3) by (rule lut_entry_mono(1))
  moreover have "a \<le> b \<longrightarrow> ToUint8Clamp (lut_value a b i) \<le> ToUint8Clamp (lut_value a b j)"
    using lut_entry_mono(1) [OF assms(4,5,2) j] by blast
  moreover have "b \<le> a \<longrightarrow> ToUint8Clamp (lut_value a b j) \<le> ToUint8Clamp (lut_value a b i)"
    using lut_entry_mono(2) [OF assms(4,5,2) j] by blast
  ultimately show ?thesis using an(3) by blast
qed

theorem lut_construction_witness:
  "(0::nat) < 3 \<and> (3::nat) \<le> 200 \<and> (200::nat) < 256 \<and> (22::nat) \<le> 255 \<and> (249::nat) \<le> 255
   \<and> channel_lut 0 = rLUT
   \<and> rLUT ! 3 = lut_spec rne 22 249 3 \<and> rLUT ! 0 = 22 \<and> rLUT ! 255 = 249
   \<and> rLUT ! 3 \<le> rLUT ! 200
   \<and> ToUint8Clamp (lut_value 22 249 3) \<le> ToUint8Clamp (lut_value 22 249 200)
   \<and> ToUint8Clamp (lut_value 249 22 200) \<le> ToUint8Clamp (lut_value 249 22 3)"
proof -
  have c: "channel_lut 0 = rLUT" "COLOR_A ! 0 = 22" "COLOR_B ! 0 = 249"
    by (simp_all add: channel_lut_def COLOR_A_def COLOR_B_def)
  have h: "(0::nat) < 3" "(3::nat) \<le> 200" "(200::nat) < 256" "(22::nat) \<le> 255"
    "(249::nat) \<le> 255" by simp_all
  note up = lut_construction [OF h(1,2,3,4,5), unfolded c]
  note down = lut_construction [OF h(1,2,3,5,4), unfolded c]
  have e: "rLUT ! 0 = of_nat 22" "rLUT ! 255 = of_nat 249" using up by blast+
  have ab: "(22::nat) \<le> 249" by simp
  have "rLUT ! 0 = 22" "rLUT ! 255 = 249" using e by simp_all
  moreover have "rLUT ! 3 = lut_spec rne 22 249 3" "rLUT ! 3 \<le> rLUT ! 200"
    using up by blast+
  moreover have "ToUint8Clamp (lut_value 22 249 3) \<le> ToUint8Clamp (lut_value 22 249 200)"
    using up ab by blast
  moreover have "ToUint8Clamp (lut_value 249 22 200) \<le> ToUint8Clamp (lut_value 249 22 3)"
    using down ab by blast
  ultimately show ?thesis using h c(1) by blast
qed

section \<open>What the transform does to a pixel\<close>

lemma list4_eqI:
  assumes "length xs = 4" "xs ! (4 * 0) = a" "xs ! (4 * 0 + 1) = b" "xs ! (4 * 0 + 2) = c"
    "xs ! (4 * 0 + 3) = d"
  shows "xs = [a, b, c, d]"
proof -
  from assms(1) obtain x0 x1 x2 x3 where xs: "xs = [x0, x1, x2, x3]"
    by (cases xs; cases "tl xs"; cases "tl (tl xs)"; cases "tl (tl (tl xs))") auto
  show ?thesis using assms(2-5) unfolding xs by simp
qed

lemma stored_in_range:
  assumes "0 \<le> L" "nat L < length t"
  shows "stored t (Some L) = t ! nat L"
  using assms by (simp add: stored_def ta_get_def)

lemma lut_lengths: "length rLUT = 256" "length gLUT = 256" "length bLUT = 256"
  by (simp_all add: rLUT_def gLUT_def bLUT_def)

text \<open>
  C3. For every pixel \<open>p\<close> of a buffer of whole pixels, with input bytes \<open>r\<close>,
  \<open>g\<close>, \<open>b\<close>: the transform computes a luminance index \<open>L\<close>, the result of
  \<open>Math.round\<close> on the double-precision sum \<open>r * 0.2126 + g * 0.7152 + b * 0.0722\<close>;
  \<open>L\<close> is an integer between 0 and 255 and a nearest integer of the exact sum (at most
  \<open>1 / 2\<close> away from it); the red, green and blue bytes of the pixel become
  \<open>rLUT[L]\<close>, \<open>gLUT[L]\<close>, \<open>bLUT[L]\<close> and alpha stays. In particular the pixel
  (255, 255, 255) becomes (249, 159, 210), anchor B, and the pixel (0, 0, 0) becomes
  (22, 80, 39), anchor A.
\<close>

theorem filtering_pixel_transform:
  assumes "4 dvd length (data im)" and "p < length (data im) div 4"
  shows "\<exists>L. luminanceInt (Some (data im ! (4 * p))) (Some (data im ! (4 * p + 1)))
                (Some (data im ! (4 * p + 2))) = Some L
      \<and> \<bar>of_int L - luminance_exact (data im ! (4 * p)) (data im ! (4 * p + 1))
             (data im ! (4 * p + 2))\<bar> \<le> 1 / 2
      \<and> 0 \<le> L \<and> L \<le> 255
      \<and> data (filtering im) ! (4 * p) = rLUT ! nat L
      \<and> data (filtering im) ! (4 * p + 1) = gLUT ! nat L
      \<and> data (filtering im) ! (4 * p + 2) = bLUT ! nat L
      \<and> data (filtering im) ! (4 * p + 3) = data im ! (4 * p + 3)
      \<and> data (filtering (one_pixel 255 255 255 a)) = [249, 159, 210, a]
      \<and> data (filtering (one_pixel 0 0 0 a)) = [22, 80, 39, a]"
proof -
  have lookups: "data (filtering im') ! (4 * q) = rLUT ! nat L
      \<and> data (filtering im') ! (4 * q + 1) = gLUT ! nat L
      \<and> data (filtering im') ! (4 * q + 2) = bLUT ! nat L
      \<and> data (filtering im') ! (4 * q + 3) = data im' ! (4 * q + 3)"
    if q: "4 * q + 3 < length (data im')"
      and L: "luminanceInt (Some (data im' ! (4 * q))) (Some (data im' ! (4 * q + 1)))
                (Some (data im' ! (4 * q + 2))) = Some L" "0 \<le> L" "L \<le> 255"
    for im' q L
  proof -
    have "pixel_luminance (data im') (4 * q) = Some L"
      using q L(1) by (simp add: pixel_luminance_def ta_read_def)
    moreover have "nat L < 256" using L(2,3) by simp
    ultimately show ?thesis
      using filtering_pixel [OF q] L(2) by (simp add: stored_in_range lut_lengths)
  qed
  have idx: "4 * p + 3 < length (data im)" using assms by (rule pixel_index)
  from luminanceInt_Some [of "data im ! (4 * p)" "data im ! (4 * p + 1)" "data im ! (4 * p + 2)"]
  obtain L where L: "luminanceInt (Some (data im ! (4 * p))) (Some (data im ! (4 * p + 1)))
                (Some (data im ! (4 * p + 2))) = Some L"
      "\<bar>of_int L - luminance_exact (data im ! (4 * p)) (data im ! (4 * p + 1))
             (data im ! (4 * p + 2))\<bar> \<le> 1 / 2" "0 \<le> L" "L \<le> 255"
    by blast
  note main = lookups [OF idx L(1,3,4)]
  have ends: "rLUT ! 255 = 249" "gLUT ! 255 = 159" "bLUT ! 255 = 210"
    "rLUT ! 0 = 22" "gLUT ! 0 = 80" "bLUT ! 0 = 39"
    using lut_entry_ends [of 22 249] lut_entry_ends [of 80 159] lut_entry_ends [of 39 210]
    by (simp_all add: rLUT_def gLUT_def bLUT_def COLOR_A_def COLOR_B_def)
  have white: "luminanceInt (Some 255) (Some 255) (Some 255) = Some 255"
    by (rule luminanceInt_nearest) (simp add: luminance_exact_def)
  have black: "luminanceInt (Some 0) (Some 0) (Some 0) = Some 0"
    by (rule luminanceInt_nearest) (simp add: luminance_exact_def)
  have w: "data (filtering (one_pixel 255 255 255 a)) = [249, 159, 210, a]"
  proof -
    let ?im = "one_pixel 255 255 255 a"
    have q: "4 * 0 + 3 < length (data ?im)" by (simp add: one_pixel_def)
    have l: "luminanceInt (Some (data ?im ! (4 * 0))) (Some (data ?im ! (4 * 0 + 1)))
                (Some (data ?im ! (4 * 0 + 2))) = Some 255"
      using white by (simp add: one_pixel_def)
    note lw = lookups [OF q l]
    show ?thesis
      by (rule list4_eqI) (use lw ends in \<open>simp_all add: one_pixel_def\<close>)
  qed
  have b: "data (filtering (one_pixel 0 0 0 a)) = [22, 80, 39, a]"
  proof -
    let ?im = "one_pixel 0 0 0 a"
    have q: "4 * 0 + 3 < length (data ?im)" by (simp add: one_pixel_def)
    have l: "luminanceInt (Some (data ?im ! (4 * 0))) (Some (data ?im ! (4 * 0 + 1)))
                (Some (data ?im ! (4 * 0 + 2))) = Some 0"
      using black by (simp add: one_pixel_def)
    note lw = lookups [OF q l]
    show ?thesis
      by (rule list4_eqI) (use lw ends in \<open>simp_all add: one_pixel_def\<close>)
  qed
  show ?thesis using L main w b by blast
qed

theorem filtering_pixel_transform_witness:
  "4 dvd length (data grey_pair) \<and> (1::nat) < length (data grey_pair) div 4
   \<and> (\<exists>L. luminanceInt (Some 19) (Some 19) (Some 19) = Some L \<and> 0 \<le> L \<and> L \<le> 255
        \<and> data (filtering grey_pair) ! 4 = rLUT ! nat L
        \<and> data (filtering grey_pair) ! 5 = gLUT ! nat L
        \<and> data (filtering grey_pair) ! 6 = bLUT ! nat L
        \<and> data (filtering grey_pair) ! 7 = 255)"
proof -
  have h1: "4 dvd length (data grey_pair)" by code_simp
  have h2: "(1::nat) < length (data grey_pair) div 4" by code_simp
  from filtering_pixel_transform [OF h1 h2, of 0] show ?thesis
    using h1 h2 by (simp add: grey_pair_def) blast
qed

section \<open>Alpha is preserved\<close>

text \<open>
  C5. For every image data whose buffer length is a multiple of 4 and every pixel \<open>p\<close> of
  it, the transform leaves the alpha byte of the pixel, the byte at index \<open>4 * p + 3\<close>,
  exactly as it was; the buffer keeps its length and the image its dimensions.
\<close>

theorem filtering_preserves_alpha:
  assumes "4 dvd length (data im)" and "p < length (data im) div 4"
  shows "data (filtering im) ! (4 * p + 3) = data im ! (4 * p + 3)
       \<and> length (data (filtering im)) = length (data im)
       \<and> width (filtering im) = width im \<and> height (filtering im) = height im"
proof -
  have "4 * p + 3 < length (data im)" using assms by (rule pixel_index)
  then have "data (filtering im) ! (4 * p + 3) = data im ! (4 * p + 3)"
    by (rule filtering_pixel(4))
  then show ?thesis by (simp add: filtering_def)
qed

theorem filtering_preserves_alpha_witness:
  "4 dvd length (data two_pixels) \<and> (1::nat) < length (data two_pixels) div 4
   \<and> data (filtering two_pixels) ! 7 = 0 \<and> length (data (filtering two_pixels)) = 8"
proof -
  have h1: "4 dvd length (data two_pixels)" by code_simp
  have h2: "(1::nat) < length (data two_pixels) div 4" by code_simp
  from filtering_preserves_alpha [OF h1 h2] show ?thesis
    using h1 h2 by (simp add: two_pixels_def)
qed

section \<open>The table lookups are within bounds\<close>

text \<open>
  C10. For every pixel, whose channels \<open>r\<close>, \<open>g\<close>, \<open>b\<close> are bytes, the index
  \<open>luminanceInt\<close> that the transform computes is a number (not \<open>NaN\<close>) between 0 and
  255, so each of the three table lookups reads an element of its 256-entry table: the
  lookup never yields \<open>undefined\<close>.
\<close>

theorem luminance_index_in_bounds:
  "\<exists>L. luminanceInt (Some r) (Some g) (Some b) = Some L \<and> 0 \<le> L \<and> L \<le> 255
       \<and> length rLUT = 256 \<and> length gLUT = 256 \<and> length bLUT = 256
       \<and> ta_get rLUT (Some L) = Some (rLUT ! nat L)
       \<and> ta_get gLUT (Some L) = Some (gLUT ! nat L)
       \<and> ta_get bLUT (Some L) = Some (bLUT ! nat L)"
proof -
  from luminanceInt_Some [of r g b] obtain L
    where L: "luminanceInt (Some r) (Some g) (Some b) = Some L" "0 \<le> L" "L \<le> 255"
    by blast
  have len: "length rLUT = 256" "length gLUT = 256" "length bLUT = 256"
    by (simp_all add: rLUT_def gLUT_def bLUT_def)
  have "nat L < 256" using L(2,3) by simp
  then show ?thesis using L len by (simp add: ta_get_def)
qed

section \<open>The output depends on the luminance only\<close>

text \<open>
  C6. Take two pixels, pixel \<open>p\<close> of one buffer and pixel \<open>q\<close> of another (or of the
  same one), both buffers of whole pixels. If the transform computes the same luminance
  index for both, then it writes the same red, green and blue bytes for both, whatever
  their input colours are.
\<close>

theorem same_luminance_same_rgb:
  assumes "4 dvd length (data im1)" and "p < length (data im1) div 4"
    and "4 dvd length (data im2)" and "q < length (data im2) div 4"
    and "pixel_luminance (data im1) (4 * p) = pixel_luminance (data im2) (4 * q)"
  shows "data (filtering im1) ! (4 * p) = data (filtering im2) ! (4 * q)
       \<and> data (filtering im1) ! (4 * p + 1) = data (filtering im2) ! (4 * q + 1)
       \<and> data (filtering im1) ! (4 * p + 2) = data (filtering im2) ! (4 * q + 2)"
proof -
  have p: "4 * p + 3 < length (data im1)" using assms(1,2) by (rule pixel_index)
  have q: "4 * q + 3 < length (data im2)" using assms(3,4) by (rule pixel_index)
  show ?thesis
    by (simp only: filtering_pixel(1-3) [OF p] filtering_pixel(1-3) [OF q] assms(5))
qed

theorem same_luminance_same_rgb_witness:
  "4 dvd length (data grey_pair) \<and> (0::nat) < length (data grey_pair) div 4
   \<and> (1::nat) < length (data grey_pair) div 4
   \<and> take 3 (data grey_pair) \<noteq> take 3 (drop 4 (data grey_pair))
   \<and> pixel_luminance (data grey_pair) (4 * 0) = pixel_luminance (data grey_pair) (4 * 1)
   \<and> data (filtering grey_pair) ! (4 * 0) = data (filtering grey_pair) ! (4 * 1)
   \<and> data (filtering grey_pair) ! (4 * 0 + 1) = data (filtering grey_pair) ! (4 * 1 + 1)
   \<and> data (filtering grey_pair) ! (4 * 0 + 2) = data (filtering grey_pair) ! (4 * 1 + 2)"
proof -
  have h1: "4 dvd length (data grey_pair)" by code_simp
  have h2: "(0::nat) < length (data grey_pair) div 4" by code_simp
  have h3: "(1::nat) < length (data grey_pair) div 4" by code_simp
  have h4: "take 3 (data grey_pair) \<noteq> take 3 (drop 4 (data grey_pair))" by code_simp
  have a: "luminanceInt (Some 10) (Some 20) (Some 30) = Some 19"
    by (rule luminanceInt_nearest) (simp add: luminance_exact_def)
  have b: "luminanceInt (Some 19) (Some 19) (Some 19) = Some 19"
    by (rule luminanceInt_nearest) (simp add: luminance_exact_def)
  have h5: "pixel_luminance (data grey_pair) (4 * 0) = pixel_luminance (data grey_pair) (4 * 1)"
    by (simp add: pixel_luminance_def ta_read_def grey_pair_def a b)
  from same_luminance_same_rgb [OF h1 h2 h1 h3 h5] show ?thesis
    using h1 h2 h3 h4 h5 by blast
qed

section \<open>The state of a batch run\<close>

lemma process_item_outcome:
  "process_item f s =
     (if succeeded (outcome f)
      then setProcessingProgress (progress_of (processedCount s + 1) (length (batch s)))
             (s\<lparr>processedCount := processedCount s + 1\<rparr>)
      else s, outcome f)"
  by (simp add: process_item_def outcome_def succeeded_def entry_of_def Let_def split: option.split)

lemma count_done_update:
  "i < length ps \<Longrightarrow> ps ! i = Pending \<Longrightarrow>
   count_done (ps[i := p]) = count_done ps + (if succeeded p then 1 else 0)"
proof (induction ps arbitrary: i)
  case Nil
  then show ?case by simp
next
  case (Cons q ps)
  show ?case
  proof (cases i)
    case 0
    then show ?thesis using Cons.prems by (simp add: count_done_def succeeded_def)
  next
    case (Suc k)
    then show ?thesis using Cons.prems Cons.IH [of k] by (simp add: count_done_def)
  qed
qed

lemma rejected_update:
  "i < length ps \<Longrightarrow> ps ! i = Pending \<Longrightarrow>
   Rejected \<in> set (ps[i := p]) \<longleftrightarrow> p = Rejected \<or> Rejected \<in> set ps"
proof (induction ps arbitrary: i)
  case Nil
  then show ?case by simp
next
  case (Cons q ps)
  show ?case
  proof (cases i)
    case 0
    then show ?thesis using Cons.prems by auto
  next
    case (Suc k)
    then show ?thesis using Cons.prems Cons.IH [of k] by auto
  qed
qed

lemma pending_no_values:
  "i < length ps \<Longrightarrow> ps ! i = Pending \<Longrightarrow> fulfilled_values ps = None"
proof (induction ps arbitrary: i)
  case Nil
  then show ?case by simp
next
  case (Cons q ps)
  show ?case
  proof (cases i)
    case 0
    then show ?thesis using Cons.prems by simp
  next
    case (Suc k)
    then have "fulfilled_values ps = None" using Cons.prems Cons.IH [of k] by simp
    then show ?thesis by (cases q) simp_all
  qed
qed

lemma Promise_all_pending:
  assumes "i < length ps" "ps ! i = Pending"
  shows "Promise_all ps = (if Rejected \<in> set ps then Rejected else Pending)"
  by (simp add: Promise_all_def pending_no_values [OF assms])

lemma Promise_all_update:
  assumes "i < length ps" "ps ! i = Pending"
  shows "Promise_all (ps[i := p]) =
     (if p = Rejected \<or> Rejected \<in> set ps then Rejected
      else case fulfilled_values (ps[i := p]) of Some vs \<Rightarrow> Fulfilled vs | None \<Rightarrow> Pending)"
  by (simp add: Promise_all_def rejected_update [OF assms])

lemma image_event_state_of:
  assumes "length ps = length (files s)"
  shows "image_event i (state_of s ps) = state_of s (settle_one (files s) i ps)"
proof (cases "i < length ps \<and> ps ! i = Pending")
  case False
  then show ?thesis by (auto simp: image_event_def settle_one_def state_of_def)
next
  case True
  then have i: "i < length ps" "ps ! i = Pending" by simp_all
  define p where "p = outcome (files s ! i)"
  have so: "settle_one (files s) i ps = ps[i := p]" using i by (simp add: settle_one_def p_def)
  note pa = Promise_all_pending [OF i]
  note pu = Promise_all_update [OF i]
  note cu = count_done_update [OF i]
  show ?thesis
  proof (cases "succeeded p")
    case True
    then have np: "p \<noteq> Rejected" by (auto simp: succeeded_def)
    show ?thesis
      unfolding so using i True np
      by (cases "Rejected \<in> set ps"; cases "fulfilled_values (ps[i := p])")
         (simp_all add: image_event_def process_item_outcome p_def [symmetric] state_of_def
            resume_def setProcessingProgress_def pa pu cu valid_results_def)
  next
    case False
    show ?thesis
      unfolding so using i False
      by (cases "Rejected \<in> set ps"; cases "fulfilled_values (ps[i := p])"; cases "p = Rejected")
         (simp_all add: image_event_def process_item_outcome p_def [symmetric] state_of_def
            resume_def setProcessingProgress_def pa pu cu valid_results_def)
  qed
qed

lemma length_settle_one [simp]: "length (settle_one fs i ps) = length ps"
  by (simp add: settle_one_def)

lemma fold_image_event_state_of:
  "length ps = length (files s) \<Longrightarrow>
   fold image_event sched (state_of s ps) = state_of s (fold (settle_one (files s)) sched ps)"
  by (induction sched arbitrary: ps) (simp_all add: image_event_state_of)

lemma handleConvert_state_of:
  assumes "files s \<noteq> []"
  shows "handleConvert s = state_of s (map (\<lambda>f. Pending) (files s))"
proof -
  obtain f fs where fs: "files s = f # fs" using assms by (cases "files s") auto
  have "Promise_all (map (\<lambda>f. Pending) (files s)) = (Pending :: processed option list promise)"
    by (auto simp: fs Promise_all_def)
  moreover have "count_done (map (\<lambda>f. Pending :: processed option promise) (files s)) = 0"
    by (simp add: count_done_def succeeded_def)
  ultimately show ?thesis
    using assms by (simp add: handleConvert_def state_of_def setProcessingProgress_def)
qed

lemma run_state_of:
  assumes "files s \<noteq> []"
  shows "run sched s = state_of s (settled (files s) sched)"
  by (simp add: run_def settled_def handleConvert_state_of [OF assms] fold_image_event_state_of)

lemma outcome_not_Pending [simp]: "outcome f \<noteq> Pending"
  by (simp add: outcome_def split: option.split)

lemma fold_settle_one_nth:
  "i < length ps \<Longrightarrow>
   fold (settle_one fs) sched ps ! i =
     (if i \<in> set sched \<and> ps ! i = Pending then outcome (fs ! i) else ps ! i)"
proof (induction sched arbitrary: ps)
  case Nil
  then show ?case by simp
next
  case (Cons j sched)
  have len: "i < length (settle_one fs j ps)" using Cons.prems by simp
  have one: "settle_one fs j ps ! i = (if i = j \<and> ps ! i = Pending then outcome (fs ! i) else ps ! i)"
    using Cons.prems by (auto simp: settle_one_def)
  show ?case
    using Cons.IH [OF len] one by auto
qed

lemma length_fold_settle_one [simp]: "length (fold (settle_one fs) sched ps) = length ps"
  by (induction sched arbitrary: ps) simp_all

lemma length_settled [simp]: "length (settled fs sched) = length fs"
  by (simp add: settled_def)

lemma settled_nth:
  "i < length fs \<Longrightarrow> settled fs sched ! i = (if i \<in> set sched then outcome (fs ! i) else Pending)"
  by (simp add: settled_def fold_settle_one_nth)

lemma settled_complete:
  assumes "{..<length fs} \<subseteq> set sched"
  shows "settled fs sched = map outcome fs"
proof (rule nth_equalityI)
  show "length (settled fs sched) = length (map outcome fs)" by simp
next
  fix i assume "i < length (settled fs sched)"
  then have i: "i < length fs" by simp
  then have "i \<in> set sched" using assms by auto
  then show "settled fs sched ! i = map outcome fs ! i" using i by (simp add: settled_nth)
qed

lemma rejected_outcomes:
  "Rejected \<in> set (map outcome fs) \<longleftrightarrow> (\<exists>f\<in>set fs. decoded f = None)"
  by (induction fs) (auto simp: outcome_def split: option.splits if_splits)

lemma fulfilled_outcomes:
  "\<forall>f\<in>set fs. decoded f \<noteq> None \<Longrightarrow> fulfilled_values (map outcome fs) = Some (map item_value fs)"
  by (induction fs) (auto simp: outcome_def item_value_def split: option.splits)

lemma valid_item_values: "valid_results (map item_value fs) = entries fs"
  by (induction fs) (auto simp: valid_results_def item_value_def entries_def split: option.splits)

lemma count_done_outcomes: "count_done (map outcome fs) = length (entries fs)"
  by (induction fs)
     (auto simp: count_done_def succeeded_def outcome_def entries_def split: option.splits)

lemma Promise_all_outcomes:
  "Promise_all (map outcome fs) =
     (if \<exists>f\<in>set fs. decoded f = None then Rejected else Fulfilled (map item_value fs))"
  using rejected_outcomes [of fs] fulfilled_outcomes [of fs]
  by (auto simp: Promise_all_def)

lemma run_all_events:
  assumes "files s \<noteq> []" and "{..<length (files s)} \<subseteq> set sched"
  shows "run sched s = state_of s (map outcome (files s))"
  by (simp add: run_state_of [OF assms(1)] settled_complete [OF assms(2)])

lemma state_of_outcomes:
  "processedImages (state_of s (map outcome (files s))) =
     (if \<exists>f\<in>set (files s). decoded f = None then [] else entries (files s))"
  "isProcessing (state_of s (map outcome (files s))) = False"
  "awaiting (state_of s (map outcome (files s))) = False"
  "processedCount (state_of s (map outcome (files s))) = length (entries (files s))"
  "console_errors (state_of s (map outcome (files s))) =
     console_errors s + (if \<exists>f\<in>set (files s). decoded f = None then 1 else 0)"
  "processingProgress (state_of s (map outcome (files s))) =
     (if length (entries (files s)) = 0 then Some 0
      else progress_of (length (entries (files s))) (length (files s)))"
  "processingPromises (state_of s (map outcome (files s))) = map outcome (files s)"
  by (auto simp add: state_of_def Promise_all_outcomes valid_item_values count_done_outcomes)

lemma entries_all_ok:
  assumes "\<forall>f\<in>set fs. decoded f \<noteq> None \<and> has_ctx f"
  shows "length (entries fs) = length fs"
    and "map name (entries fs) = map (\<lambda>f. ''pinku_'' @ file_name f) fs"
    and "map originalName (entries fs) = map file_name fs"
  using assms by (induction fs) (auto simp: entries_def entry_of_def)

lemma progress_of_all:
  assumes "0 < n"
  shows "progress_of n n = Some 100"
proof -
  have "(of_nat n :: rat) / of_nat n = 1" using assms by simp
  moreover have "\<lfloor>(100::rat) + 1 / 2\<rfloor> = 100" by (rule floor_unique) simp_all
  ultimately show ?thesis
    using assms
    by (simp add: progress_of_def js_div_def js_mul_def lit_def Math_round_def fl_small_ints
        del: floor_add_int floor_add2)
qed

lemma progress_of_2_3: "progress_of 2 3 = Some 67"
  by code_simp

lemma complete_iff: "complete sched n \<longleftrightarrow> {..<n} \<subseteq> set sched"
  by (auto simp: complete_def list_all_iff)

lemma run_complete:
  assumes "files s \<noteq> []" and "complete sched (length (files s))"
  shows "run sched s = state_of s (map outcome (files s))"
  using assms(2) by (simp add: complete_iff run_all_events [OF assms(1)])

lemma succeeded_outcome: "succeeded (outcome f) \<longleftrightarrow> decoded f \<noteq> None \<and> has_ctx f"
  by (simp add: succeeded_def outcome_def split: option.split)

lemma count_done_le: "count_done ps \<le> length ps"
  by (simp add: count_done_def)

lemma count_done_settle_one:
  assumes "length ps = length fs"
  shows "count_done (settle_one fs i ps) =
     count_done ps + (if i < length fs \<and> ps ! i = Pending \<and> succeeded (outcome (fs ! i)) then 1 else 0)"
  using assms by (simp add: settle_one_def count_done_update)

lemma processedCount_state_of [simp]: "processedCount (state_of s ps) = count_done ps"
  by (simp add: state_of_def)

lemma progress_log_complete:
  assumes "0 < length (entries (files s))"
  shows "last (progress_log (state_of s (map outcome (files s)))) =
      progress_of (length (entries (files s))) (length (files s))"
proof -
  define c where "c = length (entries (files s))"
  obtain k where k: "c = Suc k" using assms by (cases c) (simp_all add: c_def)
  have "[1..<c + 1] = [1..<c] @ [c]" unfolding k by simp
  then show ?thesis
    by (simp add: state_of_def count_done_outcomes c_def [symmetric])
qed

section \<open>A run with an item that fails to decode\<close>

text \<open>
  C1, as stated, fails. On the files \<open>good.png\<close>, \<open>bad.png\<close>, \<open>good2.png\<close>, of
  which only \<open>bad.png\<close> fails to decode (its image fires the error event), the run with
  the events in the order 0, 1, 2 ends with an empty result list, not with the two entries
  of \<open>good.png\<close> and \<open>good2.png\<close>: the rejected promise of the item rejects
  \<open>Promise.all\<close>, and the \<open>catch\<close> of \<open>handleConvert\<close> never calls
  \<open>setProcessedImages\<close>.
\<close>

theorem partial_failure_counterexample:
  "files three_files = [good_file, bad_file, good2_file]
   \<and> decoded good_file \<noteq> None \<and> has_ctx good_file
   \<and> decoded bad_file = None
   \<and> decoded good2_file \<noteq> None \<and> has_ctx good2_file
   \<and> processedImages (run [0, 1, 2] three_files) = []
   \<and> length (processedImages (run [0, 1, 2] three_files)) \<noteq> 2"
proof -
  have i: "files three_files = [good_file, bad_file, good2_file]"
    "decoded good_file \<noteq> None" "has_ctx good_file" "decoded bad_file = None"
    "decoded good2_file \<noteq> None" "has_ctx good2_file"
    by (simp_all add: three_files_def good_file_def bad_file_def good2_file_def)
  have f: "files three_files \<noteq> []" by (simp add: three_files_def)
  have c: "complete [0, 1, 2] (length (files three_files))" by code_simp
  have "\<exists>f\<in>set (files three_files). decoded f = None"
    by (simp add: three_files_def bad_file_def)
  then have "processedImages (state_of three_files (map outcome (files three_files))) = []"
    by (simp add: state_of_outcomes(1))
  then have "processedImages (run [0, 1, 2] three_files) = []"
    by (simp only: run_complete [OF f c])
  then show ?thesis using i by simp
qed

text \<open>
  C1, amended. For a run on \<open>[good, bad, good2]\<close> where \<open>good\<close> and \<open>good2\<close>
  decode and \<open>bad\<close> does not, whatever the order of the events: the run ends without a
  fault of its own (\<open>handleConvert\<close> is past its \<open>await\<close> and \<open>isProcessing\<close> is
  false again), the failed item contributes no entry, and the siblings are not aborted:
  both complete and are counted (\<open>processedCount\<close> 2, progress 67). When \<open>bad\<close> fails
  to load, the rejection is caught and logged once and the published result list is empty:
  the entries of the siblings are discarded. The two sibling entries are published, with
  nothing logged, when \<open>bad\<close> loads and fails by getting no canvas context.
\<close>

theorem partial_failure_run:
  assumes "files s = [good, bad, good2]"
    and "decoded good = Some im" and "has_ctx good"
    and "decoded good2 = Some im2" and "has_ctx good2"
    and "decoded bad = None \<or> \<not> has_ctx bad"
    and "complete sched 3"
  shows "isProcessing (run sched s) = False \<and> awaiting (run sched s) = False
       \<and> processedCount (run sched s) = 2
       \<and> processingProgress (run sched s) = Some 67
       \<and> (decoded bad = None \<longrightarrow>
             processedImages (run sched s) = []
           \<and> console_errors (run sched s) = console_errors s + 1
           \<and> processingPromises (run sched s) =
               [Fulfilled (Some (entry_of good im)), Rejected,
                Fulfilled (Some (entry_of good2 im2))])
       \<and> (decoded bad \<noteq> None \<longrightarrow>
             processedImages (run sched s) = [entry_of good im, entry_of good2 im2]
           \<and> console_errors (run sched s) = console_errors s
           \<and> processingPromises (run sched s) =
               [Fulfilled (Some (entry_of good im)), Fulfilled None,
                Fulfilled (Some (entry_of good2 im2))])"
proof -
  have f: "files s \<noteq> []" using assms(1) by simp
  have lf: "length (files s) = 3" using assms(1) by simp
  then have c: "complete sched (length (files s))" using assms(7) by (simp only:)
  have e: "entries (files s) = [entry_of good im, entry_of good2 im2]"
    using assms(1-6) by (auto simp: entries_def split: option.split)
  have le: "length (entries (files s)) = 2" using e by simp
  have bad: "(\<exists>f\<in>set (files s). decoded f = None) \<longleftrightarrow> decoded bad = None"
    using assms(1,2,4) by auto
  have o1: "map outcome (files s) =
      [Fulfilled (Some (entry_of good im)), Rejected, Fulfilled (Some (entry_of good2 im2))]"
    if "decoded bad = None"
    using assms(1-5) that by (simp add: outcome_def)
  have o2: "map outcome (files s) =
      [Fulfilled (Some (entry_of good im)), Fulfilled None, Fulfilled (Some (entry_of good2 im2))]"
    if "decoded bad \<noteq> None"
    using assms(1-6) that by (auto simp: outcome_def)
  note st = state_of_outcomes [of s]
  have "processingProgress (state_of s (map outcome (files s))) = Some 67"
    unfolding st(6) le lf by (simp add: progress_of_2_3)
  moreover have "processedCount (state_of s (map outcome (files s))) = 2"
    unfolding st(4) le ..
  moreover have "processedImages (state_of s (map outcome (files s))) = []"
    if "decoded bad = None"
    unfolding st(1) bad using that by simp
  moreover have "processedImages (state_of s (map outcome (files s))) =
      [entry_of good im, entry_of good2 im2]"
    if "decoded bad \<noteq> None"
    unfolding st(1) bad e using that by simp
  moreover have "console_errors (state_of s (map outcome (files s))) = console_errors s + 1"
    if "decoded bad = None"
    unfolding st(5) bad using that by simp
  moreover have "console_errors (state_of s (map outcome (files s))) = console_errors s"
    if "decoded bad \<noteq> None"
    unfolding st(5) bad using that by simp
  moreover have "processingPromises (state_of s (map outcome (files s))) =
      [Fulfilled (Some (entry_of good im)), Rejected, Fulfilled (Some (entry_of good2 im2))]"
    if "decoded bad = None"
    unfolding st(7) using that by (rule o1)
  moreover have "processingPromises (state_of s (map outcome (files s))) =
      [Fulfilled (Some (entry_of good im)), Fulfilled None, Fulfilled (Some (entry_of good2 im2))]"
    if "decoded bad \<noteq> None"
    unfolding st(7) using that by (rule o2)
  ultimately show ?thesis
    unfolding run_complete [OF f c] using st(2,3) by blast
qed

theorem partial_failure_run_witness:
  "files three_files = [good_file, bad_file, good2_file]
   \<and> files three_files_no_ctx = [good_file, no_ctx_file, good2_file]
   \<and> decoded good_file = Some (one_pixel 255 255 255 255) \<and> has_ctx good_file
   \<and> decoded good2_file = Some (one_pixel 0 0 0 255) \<and> has_ctx good2_file
   \<and> decoded bad_file = None \<and> decoded no_ctx_file \<noteq> None \<and> \<not> has_ctx no_ctx_file
   \<and> complete [2, 0, 1] 3
   \<and> processedImages (run [2, 0, 1] three_files) = []
   \<and> console_errors (run [2, 0, 1] three_files) = 1
   \<and> isProcessing (run [2, 0, 1] three_files) = False
   \<and> processedCount (run [2, 0, 1] three_files) = 2
   \<and> processingProgress (run [2, 0, 1] three_files) = Some 67
   \<and> processedImages (run [2, 0, 1] three_files_no_ctx) =
       [entry_of good_file (one_pixel 255 255 255 255), entry_of good2_file (one_pixel 0 0 0 255)]
   \<and> console_errors (run [2, 0, 1] three_files_no_ctx) = 0"
proof -
  have h: "files three_files = [good_file, bad_file, good2_file]"
    "decoded good_file = Some (one_pixel 255 255 255 255)" "has_ctx good_file"
    "decoded good2_file = Some (one_pixel 0 0 0 255)" "has_ctx good2_file"
    by (simp_all add: three_files_def good_file_def good2_file_def)
  have h': "files three_files_no_ctx = [good_file, no_ctx_file, good2_file]"
    by (simp add: three_files_no_ctx_def)
  have b: "decoded bad_file = None" by (simp add: bad_file_def)
  have n: "decoded no_ctx_file \<noteq> None" "\<not> has_ctx no_ctx_file"
    by (simp_all add: no_ctx_file_def)
  have c: "complete [2, 0, 1] 3" by code_simp
  have z: "console_errors three_files = 0" "console_errors three_files_no_ctx = 0"
    by (simp_all add: three_files_def three_files_no_ctx_def page_init_def)
  have b': "decoded bad_file = None \<or> \<not> has_ctx bad_file" using b by simp
  have n': "decoded no_ctx_file = None \<or> \<not> has_ctx no_ctx_file" using n by simp
  note load_error = partial_failure_run [OF h(1,2,3,4,5) b' c]
  note no_context = partial_failure_run [OF h' h(2,3,4,5) n' c]
  show ?thesis using load_error no_context h h' b n c z by simp
qed

section \<open>A run whose items all decode\<close>

text \<open>
  C2. For every non-empty list of \<open>N\<close> files that all decode (every image loads and
  every canvas gives a context) and whatever the order in which the items complete: the
  run publishes exactly \<open>N\<close> entries, the progress value is exactly 100 once the last
  item has completed (it is the last value passed to \<open>setProcessingProgress\<close>), and the
  output name of every entry is \<open>pinku_\<close> followed by the unmodified name of its file.
\<close>

theorem all_decodable_run:
  assumes "files s \<noteq> []"
    and "\<forall>f\<in>set (files s). decoded f \<noteq> None \<and> has_ctx f"
    and "complete sched (length (files s))"
  shows "length (processedImages (run sched s)) = length (files s)
       \<and> processingProgress (run sched s) = Some 100
       \<and> last (progress_log (run sched s)) = Some 100
       \<and> map name (processedImages (run sched s)) = map (\<lambda>f. ''pinku_'' @ file_name f) (files s)
       \<and> map originalName (processedImages (run sched s)) = map file_name (files s)
       \<and> processedCount (run sched s) = length (files s)
       \<and> isProcessing (run sched s) = False"
proof -
  have nb: "\<not> (\<exists>f\<in>set (files s). decoded f = None)" using assms(2) by blast
  note ok = entries_all_ok [OF assms(2)]
  have n: "0 < length (files s)" using assms(1) by simp
  then have n': "0 < length (entries (files s))" "length (entries (files s)) \<noteq> 0"
    using ok(1) by simp_all
  note st = state_of_outcomes [of s]
  have "processedImages (run sched s) = entries (files s)"
    unfolding run_complete [OF assms(1,3)] using st(1) nb by simp
  moreover have "processingProgress (run sched s) = Some 100"
    unfolding run_complete [OF assms(1,3)] using st(6) n' ok(1) progress_of_all [OF n] by simp
  moreover have "last (progress_log (run sched s)) = Some 100"
    unfolding run_complete [OF assms(1,3)]
    using progress_log_complete [OF n'(1)] ok(1) progress_of_all [OF n] by simp
  moreover have "processedCount (run sched s) = length (files s)"
    unfolding run_complete [OF assms(1,3)] using st(4) ok(1) by simp
  moreover have "isProcessing (run sched s) = False"
    unfolding run_complete [OF assms(1,3)] using st(2) by simp
  ultimately show ?thesis using ok by simp
qed

theorem all_decodable_run_witness:
  "files two_files \<noteq> []
   \<and> list_all (\<lambda>f. decoded f \<noteq> None \<and> has_ctx f) (files two_files)
   \<and> complete [1, 0] (length (files two_files))
   \<and> length (processedImages (run [1, 0] two_files)) = 2
   \<and> processingProgress (run [1, 0] two_files) = Some 100
   \<and> map name (processedImages (run [1, 0] two_files)) = [''pinku_good.png'', ''pinku_good2.png'']"
proof -
  have h1: "files two_files \<noteq> []" by (simp add: two_files_def)
  have h2: "\<forall>f\<in>set (files two_files). decoded f \<noteq> None \<and> has_ctx f"
    by (simp add: two_files_def good_file_def good2_file_def)
  have h3: "complete [1, 0] (length (files two_files))" by code_simp
  from all_decodable_run [OF h1 h2 h3] show ?thesis
    using h1 h2 h3 by (simp add: two_files_def good_file_def good2_file_def list_all_iff)
qed

section \<open>A run on no files\<close>

text \<open>
  C7. When \<open>handleConvert\<close> is invoked with an empty list of files it returns at once:
  the state is left as it is, so there is no state transition and no progress event
  (\<open>progress_log\<close> is part of the state), and the invocation creates no item and
  publishes no result; in a state without pending items, as the initial one, the whole
  run changes nothing, whatever events are offered to it.
\<close>

theorem empty_run_is_noop:
  assumes "files s = []"
  shows "handleConvert s = s \<and> (processingPromises s = [] \<longrightarrow> run sched s = s)"
proof -
  have h: "handleConvert s = s" using assms by (simp add: handleConvert_def)
  have "fold image_event sched s = s" if "processingPromises s = []"
    using that by (induction sched) (simp_all add: image_event_def)
  then show ?thesis using h by (simp add: run_def)
qed

theorem empty_run_is_noop_witness:
  "files page_init = [] \<and> processingPromises page_init = []
   \<and> handleConvert page_init = page_init \<and> run [0, 1] page_init = page_init
   \<and> processedImages (run [0, 1] page_init) = [] \<and> progress_log (run [0, 1] page_init) = []"
proof -
  have h: "files page_init = []" "processingPromises page_init = []"
    by (simp_all add: page_init_def)
  from empty_run_is_noop [OF h(1), of "[0, 1]"] show ?thesis
    using h by (simp add: page_init_def)
qed

section \<open>The count of completed items\<close>

text \<open>
  C8. Within one batch invocation on a non-empty list: \<open>processedCount\<close> is 0 when the
  invocation starts; after any sequence of events it is at most the number of files; and
  one more event leaves it as it is or adds exactly one, the latter exactly when the event
  completes an item (one that had not completed before) whose image decodes.
\<close>

theorem processedCount_invariant:
  assumes "files s \<noteq> []"
  shows "processedCount (handleConvert s) = 0
       \<and> processedCount (run sched s) \<le> length (files s)
       \<and> processedCount (image_event i (run sched s)) =
           processedCount (run sched s) +
             (if i < length (files s) \<and> i \<notin> set sched
                 \<and> decoded (files s ! i) \<noteq> None \<and> has_ctx (files s ! i) then 1 else 0)"
proof -
  have "processedCount (handleConvert s) = 0"
    using assms by (simp add: handleConvert_def setProcessingProgress_def)
  moreover have "processedCount (run sched s) \<le> length (files s)"
    using count_done_le [of "settled (files s) sched"] by (simp add: run_state_of [OF assms])
  moreover have "processedCount (image_event i (run sched s)) =
           processedCount (run sched s) +
             (if i < length (files s) \<and> i \<notin> set sched
                 \<and> decoded (files s ! i) \<noteq> None \<and> has_ctx (files s ! i) then 1 else 0)"
    by (auto simp add: run_state_of [OF assms] image_event_state_of count_done_settle_one
        settled_nth succeeded_outcome)
  ultimately show ?thesis by blast
qed

theorem processedCount_invariant_witness:
  "files three_files \<noteq> []
   \<and> processedCount (handleConvert three_files) = 0
   \<and> processedCount (run [0] three_files) = 1
   \<and> processedCount (image_event 2 (run [0] three_files)) = 2
   \<and> processedCount (image_event 1 (run [0] three_files)) = 1
   \<and> processedCount (run [0] three_files) \<le> length (files three_files)"
proof -
  have h: "files three_files \<noteq> []" by (simp add: three_files_def)
  have l: "length (files three_files) = 3" by (simp add: three_files_def)
  note a = processedCount_invariant [OF h, of "[]" 0]
  note b = processedCount_invariant [OF h, of "[0]" 2]
  note c = processedCount_invariant [OF h, of "[0]" 1]
  have r: "run [0] three_files = image_event 0 (run [] three_files)" by (simp add: run_def)
  have e: "run [] three_files = handleConvert three_files" by (simp add: run_def)
  have "processedCount (run [0] three_files) = 1"
    unfolding r using a unfolding e
    by (simp add: three_files_def good_file_def)
  then show ?thesis
    using h a b c by (simp add: three_files_def good_file_def bad_file_def good2_file_def)
qed

section \<open>The order of the results\<close>

text \<open>
  C9. For every batch invocation on a non-empty list, once every item has completed: the
  published result list holds the entries of the successful items in the order of their
  files, \<open>entries (files s)\<close> (it is empty when an image failed to load), and two runs
  whose items complete in different orders publish the same list.
\<close>

theorem results_in_submission_order:
  assumes "files s \<noteq> []"
    and "complete sched (length (files s))" and "complete sched' (length (files s))"
  shows "processedImages (run sched s) =
           (if \<exists>f\<in>set (files s). decoded f = None then [] else entries (files s))
       \<and> processedImages (run sched' s) = processedImages (run sched s)"
  by (simp only: run_complete [OF assms(1,2)] run_complete [OF assms(1,3)]
      state_of_outcomes(1))

theorem results_in_submission_order_witness:
  "files two_files \<noteq> []
   \<and> complete [0, 1] (length (files two_files)) \<and> complete [1, 0] (length (files two_files))
   \<and> map originalName (processedImages (run [1, 0] two_files)) = [''good.png'', ''good2.png'']
   \<and> processedImages (run [0, 1] two_files) = processedImages (run [1, 0] two_files)"
proof -
  have h1: "files two_files \<noteq> []" by (simp add: two_files_def)
  have h2: "complete [0, 1] (length (files two_files))" by code_simp
  have h3: "complete [1, 0] (length (files two_files))" by code_simp
  from results_in_submission_order [OF h1 h3 h2] show ?thesis
    using h1 h2 h3
    by (simp add: two_files_def good_file_def good2_file_def entries_def entry_of_def)
qed

end
